theory Spec2Isabelle
  imports Main "HOL-Library.Word"
begin

unbundle bit_operations_syntax

section \<open>Data model of malloc.c\<close>

text \<open>
  Pointers and \<open>size_t\<close> values that take part in arithmetic are 64-bit words (LP64, the
  platform of \<open>mmap\<close>/\<open>fork\<close>/\<open>dlsym\<close>); the C \<open>int\<close> of \<open>status\<close> and \<open>done\<close> is a
  32-bit word. The counters \<open>record_count\<close>, \<open>max_records\<close>, \<open>run_count\<close> and the loop
  indices are natural numbers: \<open>record_count\<close> is only incremented below \<open>max_records\<close>
  and an index only below \<open>record_count\<close>, so none of them can wrap.
\<close>

type_synonym ptr = "64 word"
type_synonym size_t = "64 word"
type_synonym cint = "32 word"

record Record =
  caller :: ptr
  status :: cint

text \<open>
  \<open>struct Data\<close>: the header and the flexible array \<open>records[0]\<close>, which is the list
  \<open>records\<close> of all mapped slots (1024 after \<open>init\<close>); the live ones are the first
  \<open>record_count\<close>.
\<close>

record Data =
  record_count :: nat
  max_records :: nat
  records :: "Record list"

definition tested_failure :: cint where
  "tested_failure = 0x1"

definition tested_success :: cint where
  "tested_success = 0x2"

definition NULL :: ptr where
  "NULL = 0"

definition EXIT_SUCCESS :: nat where
  "EXIT_SUCCESS = 0"

definition EXIT_FAILURE :: nat where
  "EXIT_FAILURE = 1"

definition SIGSEGV :: nat where
  "SIGSEGV = 11"

text \<open>
  How a process ends, as \<open>waitpid\<close> reports it to the parent: \<open>WIFEXITED\<close> with
  \<open>WEXITSTATUS\<close>, \<open>WIFSIGNALED\<close> with \<open>WTERMSIG\<close>, or neither.
\<close>

datatype wait_status = Exited nat | Signaled nat | Unexpected

text \<open>
  The five function pointers \<open>real_malloc\<close> ... \<open>real_strndup\<close>. \<open>None\<close> is the null
  pointer \<open>dlsym\<close> returns for a symbol it does not find. A resolved allocator is a
  function of the calling process's heap \<open>'h\<close>, returning the pointer and the new heap.
  It does not touch the coverage table. A C library whose \<open>strdup\<close> or \<open>strndup\<close> calls
  \<open>malloc\<close> by its symbol comes back into the wrapper of \<open>malloc\<close> from a call site of its
  own; to the wrapper that delegated the call this is a real allocator that returns
  \<open>NULL\<close> when its inner call is failed. The record of that inner call site is not part of
  this model.
\<close>

record 'h libc =
  real_malloc :: "('h \<Rightarrow> size_t \<Rightarrow> ptr \<times> 'h) option"
  real_calloc :: "('h \<Rightarrow> size_t \<Rightarrow> size_t \<Rightarrow> ptr \<times> 'h) option"
  real_realloc :: "('h \<Rightarrow> ptr \<Rightarrow> size_t \<Rightarrow> ptr \<times> 'h) option"
  real_strdup :: "('h \<Rightarrow> ptr \<Rightarrow> ptr \<times> 'h) option"
  real_strndup :: "('h \<Rightarrow> ptr \<Rightarrow> size_t \<Rightarrow> ptr \<times> 'h) option"

section \<open>lookup_caller\<close>

text \<open>The search loop \<open>for (i = 0; i < data->record_count; i++)\<close> with its early return.\<close>

function lookup_loop :: "Data \<Rightarrow> ptr \<Rightarrow> nat \<Rightarrow> nat option" where
  "lookup_loop d c i =
     (if i < record_count d
      then (if caller (records d ! i) = c then Some i else lookup_loop d c (Suc i))
      else None)"
  by pat_completeness auto
termination
  by (relation "measure (\<lambda>(d, c, i). record_count d - i)") auto

declare lookup_loop.simps [simp del]

text \<open>
  \<open>lookup_caller\<close> returns the index of the record (the C code returns its address) and
  the table, or the way the calling process ends: \<open>exit(EXIT_FAILURE)\<close> when the table is
  full.
\<close>

definition lookup_caller :: "Data \<Rightarrow> ptr \<Rightarrow> (wait_status \<times> Data) + (nat \<times> Data)" where
  "lookup_caller d c =
     (case lookup_loop d c 0 of
        Some i \<Rightarrow> Inr (i, d)
      | None \<Rightarrow>
          if record_count d \<ge> max_records d then Inl (Exited EXIT_FAILURE, d)
          else Inr (record_count d,
                    d\<lparr>records := (records d)[record_count d := \<lparr>caller = c, status = 0\<rparr>],
                      record_count := record_count d + 1\<rparr>))"

section \<open>The wrappers\<close>

text \<open>\<open>rec->status |= flag\<close> for the record at index \<open>i\<close>.\<close>

definition or_status :: "Data \<Rightarrow> nat \<Rightarrow> cint \<Rightarrow> Data" where
  "or_status d i flag =
     d\<lparr>records := (records d)[i := (records d ! i)\<lparr>status := status (records d ! i) OR flag\<rparr>]\<rparr>"

text \<open>
  A wrapper runs in a process with the shared table and its own heap. It returns the
  pointer, the table and the heap, or the end of the process: the \<open>exit\<close> of
  \<open>lookup_caller\<close>, or the fault of a call through a null function pointer (the flag
  is already stored in the shared table then).
\<close>

type_synonym 'h proc = "Data \<times> 'h"
type_synonym 'h ret = "(wait_status \<times> Data) + (ptr \<times> Data \<times> 'h)"

definition malloc :: "'h libc \<Rightarrow> ptr \<Rightarrow> size_t \<Rightarrow> 'h proc \<Rightarrow> 'h ret" where
  "malloc L c sz s =
     (case lookup_caller (fst s) c of
        Inl e \<Rightarrow> Inl e
      | Inr (rec, d) \<Rightarrow>
          if status (records d ! rec) AND tested_failure = 0
          then Inr (NULL, or_status d rec tested_failure, snd s)
          else (let d' = or_status d rec tested_success in
                case real_malloc L of
                  None \<Rightarrow> Inl (Signaled SIGSEGV, d')
                | Some f \<Rightarrow> Inr (fst (f (snd s) sz), d', snd (f (snd s) sz))))"

definition calloc :: "'h libc \<Rightarrow> ptr \<Rightarrow> size_t \<Rightarrow> size_t \<Rightarrow> 'h proc \<Rightarrow> 'h ret" where
  "calloc L c nmemb sz s =
     (case lookup_caller (fst s) c of
        Inl e \<Rightarrow> Inl e
      | Inr (rec, d) \<Rightarrow>
          if status (records d ! rec) AND tested_failure = 0
          then Inr (NULL, or_status d rec tested_failure, snd s)
          else (let d' = or_status d rec tested_success in
                case real_calloc L of
                  None \<Rightarrow> Inl (Signaled SIGSEGV, d')
                | Some f \<Rightarrow> Inr (fst (f (snd s) nmemb sz), d', snd (f (snd s) nmemb sz))))"

definition realloc :: "'h libc \<Rightarrow> ptr \<Rightarrow> ptr \<Rightarrow> size_t \<Rightarrow> 'h proc \<Rightarrow> 'h ret" where
  "realloc L c p sz s =
     (case lookup_caller (fst s) c of
        Inl e \<Rightarrow> Inl e
      | Inr (rec, d) \<Rightarrow>
          if status (records d ! rec) AND tested_failure = 0
          then Inr (NULL, or_status d rec tested_failure, snd s)
          else (let d' = or_status d rec tested_success in
                case real_realloc L of
                  None \<Rightarrow> Inl (Signaled SIGSEGV, d')
                | Some f \<Rightarrow> Inr (fst (f (snd s) p sz), d', snd (f (snd s) p sz))))"

definition strdup :: "'h libc \<Rightarrow> ptr \<Rightarrow> ptr \<Rightarrow> 'h proc \<Rightarrow> 'h ret" where
  "strdup L c str s =
     (case lookup_caller (fst s) c of
        Inl e \<Rightarrow> Inl e
      | Inr (rec, d) \<Rightarrow>
          if status (records d ! rec) AND tested_failure = 0
          then Inr (NULL, or_status d rec tested_failure, snd s)
          else (let d' = or_status d rec tested_success in
                case real_strdup L of
                  None \<Rightarrow> Inl (Signaled SIGSEGV, d')
                | Some f \<Rightarrow> Inr (fst (f (snd s) str), d', snd (f (snd s) str))))"

definition strndup :: "'h libc \<Rightarrow> ptr \<Rightarrow> ptr \<Rightarrow> size_t \<Rightarrow> 'h proc \<Rightarrow> 'h ret" where
  "strndup L c str n s =
     (case lookup_caller (fst s) c of
        Inl e \<Rightarrow> Inl e
      | Inr (rec, d) \<Rightarrow>
          if status (records d ! rec) AND tested_failure = 0
          then Inr (NULL, or_status d rec tested_failure, snd s)
          else (let d' = or_status d rec tested_success in
                case real_strndup L of
                  None \<Rightarrow> Inl (Signaled SIGSEGV, d')
                | Some f \<Rightarrow> Inr (fst (f (snd s) str n), d', snd (f (snd s) str n))))"

text \<open>
  An intercepted call of the target program: which primitive, with which arguments.
  \<open>intercept\<close> is the interposition: the call reaches the wrapper of its name, with the
  return address \<open>c\<close> of the call site.
\<close>

datatype request =
    Malloc size_t
  | Calloc size_t size_t
  | Realloc ptr size_t
  | Strdup ptr
  | Strndup ptr size_t

fun intercept :: "'h libc \<Rightarrow> ptr \<Rightarrow> request \<Rightarrow> 'h proc \<Rightarrow> 'h ret" where
  "intercept L c (Malloc sz) s = malloc L c sz s"
| "intercept L c (Calloc nmemb sz) s = calloc L c nmemb sz s"
| "intercept L c (Realloc p sz) s = realloc L c p sz s"
| "intercept L c (Strdup str) s = strdup L c str s"
| "intercept L c (Strndup str n) s = strndup L c str n s"

text \<open>The real allocator a request is passed to, applied to the request's arguments.\<close>

fun real_call :: "'h libc \<Rightarrow> request \<Rightarrow> ('h \<Rightarrow> ptr \<times> 'h) option" where
  "real_call L (Malloc sz) = map_option (\<lambda>f h. f h sz) (real_malloc L)"
| "real_call L (Calloc nmemb sz) = map_option (\<lambda>f h. f h nmemb sz) (real_calloc L)"
| "real_call L (Realloc p sz) = map_option (\<lambda>f h. f h p sz) (real_realloc L)"
| "real_call L (Strdup str) = map_option (\<lambda>f h. f h str) (real_strdup L)"
| "real_call L (Strndup str n) = map_option (\<lambda>f h. f h str n) (real_strndup L)"

section \<open>tests_complete\<close>

text \<open>
  The loop over the live records. \<open>done\<close> is a C \<open>int\<close> and \<open>&=\<close> is the bitwise
  conjunction; the \<open>int\<close> status is converted to \<open>size_t\<close> (sign extension) when it is
  added to the checksum, which wraps at 64 bits.
\<close>

function tests_complete_loop :: "Data \<Rightarrow> nat \<Rightarrow> cint \<times> size_t \<Rightarrow> cint \<times> size_t" where
  "tests_complete_loop d i (done, checksum) =
     (if i < record_count d
      then tests_complete_loop d (Suc i)
             ((done AND (status (records d ! i) AND tested_failure))
                 AND (status (records d ! i) AND tested_success),
              checksum * 37 + scast (status (records d ! i)))
      else (done, checksum))"
  by pat_completeness auto
termination
  by (relation "measure (\<lambda>(d, i, a). record_count d - i)") auto

declare tests_complete_loop.simps [simp del]

text \<open>The two \<open>static\<close> variables of \<open>tests_complete\<close>, both 0 when the program starts.\<close>

record statics =
  last_record_count :: nat
  last_checksum :: size_t

definition statics0 :: statics where
  "statics0 = \<lparr>last_record_count = 0, last_checksum = 0\<rparr>"

definition tests_complete :: "statics \<Rightarrow> Data \<Rightarrow> cint \<times> statics" where
  "tests_complete st d =
     (case tests_complete_loop d 0 (1, 0) of
        (done, checksum) \<Rightarrow>
          (if last_record_count st = record_count d \<and> last_checksum st = checksum
           then 1 else done,
           \<lparr>last_record_count = record_count d, last_checksum = checksum\<rparr>))"

section \<open>The target program and a run of it\<close>

text \<open>
  The target program is outside the repository. What the harness sees of it is a
  sequence of intercepted calls, each from a call site \<open>c\<close> (the return address), whose
  continuation depends on the pointer it gets back, and the way the process ends. A
  child that never ends is not modelled: \<open>waitpid\<close> would block for ever.
\<close>

datatype prog =
    Halt wait_status
  | Call ptr request "ptr \<Rightarrow> prog"

text \<open>
  The child of one \<open>fork\<close>: it returns from \<open>run_tests\<close> and \<open>init\<close> into the target
  program, whose calls go through the wrappers. The result is the wait status, the shared
  table as the child leaves it, and the calls that returned: call site and pointer.
\<close>

type_synonym event = "ptr \<times> ptr"

primrec run_child :: "'h libc \<Rightarrow> prog \<Rightarrow> 'h proc \<Rightarrow> wait_status \<times> Data \<times> event list" where
  "run_child L (Halt w) s = (w, fst s, [])"
| "run_child L (Call c r k) s =
     (case intercept L c r s of
        Inl (w, d) \<Rightarrow> (w, d, [])
      | Inr (p, d, h) \<Rightarrow>
          (case run_child L (k p) (d, h) of (w, d', es) \<Rightarrow> (w, d', (c, p) # es)))"

text \<open>
  Consecutive runs on the shared table, each child forked with the parent's heap \<open>h\<close>:
  the final table and every returned call in order.
\<close>

fun run_children :: "'h libc \<Rightarrow> 'h \<Rightarrow> prog list \<Rightarrow> Data \<Rightarrow> Data \<times> event list" where
  "run_children L h [] d = (d, [])"
| "run_children L h (p # ps) d =
     (case run_child L p (d, h) of
        (w, d', es) \<Rightarrow> (case run_children L h ps d' of (d'', es') \<Rightarrow> (d'', es @ es')))"

section \<open>run_tests and init\<close>

text \<open>
  The lines of the final report: caller, "Tested Success", "Tested Failure".
\<close>

definition report :: "Data \<Rightarrow> (ptr \<times> bool \<times> bool) list" where
  "report d =
     map (\<lambda>i. (caller (records d ! i),
                status (records d ! i) AND tested_success \<noteq> 0,
                status (records d ! i) AND tested_failure \<noteq> 0))
         [0 ..< record_count d]"

text \<open>
  How the parent process ends: \<open>exit(EXIT_FAILURE)\<close>, a fatal signal, or
  \<open>exit(EXIT_SUCCESS)\<close> after the report, with the number of runs.
\<close>

datatype ending =
    Fatal
  | Killed nat
  | Finished nat "(ptr \<times> bool \<times> bool) list"

fun exit_code :: "ending \<Rightarrow> nat option" where
  "exit_code Fatal = Some EXIT_FAILURE"
| "exit_code (Killed sig) = None"
| "exit_code (Finished n rep) = Some EXIT_SUCCESS"

text \<open>
  The \<open>do ... while (tests_complete() == 0)\<close> loop of the parent. \<open>fork_ok n\<close> says whether
  the \<open>fork\<close> of run \<open>n\<close> succeeds; \<open>child n d\<close> is what the parent finds after
  \<open>waitpid\<close>: the child's wait status and the shared table. The core file handling
  (\<open>unlink\<close>, \<open>link\<close>) and the progress lines touch neither and are left out; so are
  allocations the C library may make for the parent itself while it prints (\<open>strsignal\<close>
  after a signalled child), which would go through the wrappers in the parent. The loop
  need not end, so it is a partial function: \<open>None\<close> is a campaign that runs forever.
\<close>

partial_function (option) run_loop ::
  "(nat \<Rightarrow> bool) \<Rightarrow> (nat \<Rightarrow> Data \<Rightarrow> wait_status \<times> Data) \<Rightarrow> Data \<Rightarrow> statics \<Rightarrow> nat
     \<Rightarrow> ending option" where
  "run_loop fork_ok child d st run_count =
     (if \<not> fork_ok (run_count + 1) then Some Fatal
      else (case child (run_count + 1) d of
              (w, d') \<Rightarrow>
                if w = Unexpected then Some Fatal
                else (case tests_complete st d' of
                        (done, st') \<Rightarrow>
                          if done = 0 then run_loop fork_ok child d' st' (run_count + 1)
                          else Some (Finished (run_count + 1) (report d')))))"

declare run_loop.simps [code]

text \<open>
  What \<open>init\<close> gets from the system: the five \<open>dlsym\<close> results, the result of \<open>mmap\<close>,
  the parent's heap, whether each \<open>fork\<close> succeeds, and the target program each child
  runs.
\<close>

record 'h sys =
  dlsym :: "'h libc"
  mmap_result :: ptr
  heap :: 'h
  fork_succeeds :: "nat \<Rightarrow> bool"
  target :: "nat \<Rightarrow> prog"

definition MAP_FAILED :: ptr where
  "MAP_FAILED = - 1"

definition child_of :: "'h sys \<Rightarrow> nat \<Rightarrow> Data \<Rightarrow> wait_status \<times> Data" where
  "child_of sys n d =
     (case run_child (dlsym sys) (target sys n) (d, heap sys) of (w, d', es) \<Rightarrow> (w, d'))"

definition run_tests :: "'h sys \<Rightarrow> Data \<Rightarrow> ending option" where
  "run_tests sys d = run_loop (fork_succeeds sys) (child_of sys) d statics0 0"

text \<open>The table after \<open>memset\<close> and the two assignments of \<open>init\<close>.\<close>

definition new_table :: Data where
  "new_table =
     \<lparr>record_count = 0, max_records = 1024,
      records = replicate 1024 \<lparr>caller = 0, status = 0\<rparr>\<rparr>"

text \<open>
  \<open>init\<close> compares the result of \<open>mmap\<close> with \<open>NULL\<close>; the \<open>memset\<close> that follows
  stores through whatever pointer passed that test, and through \<open>MAP_FAILED\<close> (the last
  address) it faults. \<open>enable_core_dumps\<close> only changes a resource limit.
\<close>

definition init :: "'h sys \<Rightarrow> ending option" where
  "init sys =
     (if real_malloc (dlsym sys) = None \<or> real_calloc (dlsym sys) = None
           \<or> real_realloc (dlsym sys) = None
      then Some Fatal
      else if mmap_result sys = NULL then Some Fatal
      else if mmap_result sys = MAP_FAILED then Some (Killed SIGSEGV)
      else run_tests sys new_table)"

section \<open>The properties the specification states\<close>

text \<open>The two flags of a record, as the report prints them.\<close>

definition has_failed :: "Record \<Rightarrow> bool" where
  "has_failed r \<longleftrightarrow> status r AND tested_failure \<noteq> 0"

definition has_succeeded :: "Record \<Rightarrow> bool" where
  "has_succeeded r \<longleftrightarrow> status r AND tested_success \<noteq> 0"

text \<open>
  The table is within its bounds: no more live records than \<open>max_records\<close>, and no more
  than the mapped slots. \<open>init\<close> establishes this and every operation keeps it.
\<close>

definition table_ok :: "Data \<Rightarrow> bool" where
  "table_ok d \<longleftrightarrow> record_count d \<le> max_records d \<and> max_records d \<le> length (records d)"

text \<open>The call sites of the live records, in the order of the table.\<close>

definition callers :: "Data \<Rightarrow> ptr list" where
  "callers d = map (\<lambda>i. caller (records d ! i)) [0 ..< record_count d]"

text \<open>
  A later state \<open>d'\<close> of the table \<open>d\<close>: the same capacity, the live records of \<open>d\<close> still
  at their index with their caller, and no bit of their status cleared.
\<close>

definition evolves :: "Data \<Rightarrow> Data \<Rightarrow> bool" where
  "evolves d d' \<longleftrightarrow>
     max_records d' = max_records d \<and> length (records d') = length (records d) \<and>
     record_count d \<le> record_count d' \<and>
     (\<forall>i<record_count d.
        caller (records d' ! i) = caller (records d ! i) \<and>
        status (records d ! i) AND status (records d' ! i) = status (records d ! i))"

text \<open>The digest \<open>tests_complete\<close> computes over the live records.\<close>

definition checksum :: "Data \<Rightarrow> size_t" where
  "checksum d = snd (tests_complete_loop d 0 (1, 0))"

text \<open>Every live record has \<open>has_failed\<close> set: the state of the table between two calls.\<close>

definition all_failed :: "Data \<Rightarrow> bool" where
  "all_failed d \<longleftrightarrow> (\<forall>i<record_count d. has_failed (records d ! i))"

text \<open>
  The calls of a run that returned, each with its call site, the request, the heap of
  the process before the call and the pointer it got: what \<open>run_child\<close> lists as events,
  with the arguments the real allocator would see.
\<close>

type_synonym 'h call = "ptr \<times> request \<times> 'h \<times> ptr"

definition call_site :: "'h call \<Rightarrow> ptr" where
  "call_site e = fst e"

definition call_result :: "'h call \<Rightarrow> ptr" where
  "call_result e = snd (snd (snd e))"

primrec child_calls :: "'h libc \<Rightarrow> prog \<Rightarrow> 'h proc \<Rightarrow> 'h call list" where
  "child_calls L (Halt w) s = []"
| "child_calls L (Call c r k) s =
     (case intercept L c r s of
        Inl e \<Rightarrow> []
      | Inr (p, d, h) \<Rightarrow> (c, r, snd s, p) # child_calls L (k p) (d, h))"

fun children_calls :: "'h libc \<Rightarrow> 'h \<Rightarrow> prog list \<Rightarrow> Data \<Rightarrow> 'h call list" where
  "children_calls L h [] d = []"
| "children_calls L h (p # ps) d =
     child_calls L p (d, h) @ children_calls L h ps (fst (snd (run_child L p (d, h))))"

text \<open>
  The call returned what the real allocator of its request returns for its arguments on
  the heap of the call.
\<close>

definition delegated :: "'h libc \<Rightarrow> 'h call \<Rightarrow> bool" where
  "delegated L e =
     (case e of (c, r, h, p) \<Rightarrow>
        (case real_call L r of None \<Rightarrow> False | Some g \<Rightarrow> p = fst (g h)))"

text \<open>
  A sequence of returned calls, given the sites \<open>S\<close> that have failed before: a call
  from a new site returns \<open>NULL\<close>, a call from a known site is delegated.
\<close>

fun fails_once :: "'h libc \<Rightarrow> ptr set \<Rightarrow> 'h call list \<Rightarrow> bool" where
  "fails_once L S [] \<longleftrightarrow> True"
| "fails_once L S (e # es) \<longleftrightarrow>
     (if call_site e \<in> S then delegated L e else call_result e = NULL) \<and>
     fails_once L (insert (call_site e) S) es"

text \<open>The call sites on the lines of the report a campaign ends with.\<close>

fun reported_sites :: "ending \<Rightarrow> ptr list" where
  "reported_sites (Finished n rep) = map fst rep"
| "reported_sites Fatal = []"
| "reported_sites (Killed sig) = []"

text \<open>
  What a campaign has reached so far: the number of records and the status values. It
  grows whenever the table changes and is bounded by the capacity.
\<close>

definition progress :: "Data \<Rightarrow> nat" where
  "progress d = record_count d + (\<Sum>i<record_count d. unat (status (records d ! i)))"

section \<open>Example inputs\<close>

text \<open>A C library where every allocator is resolved and returns the block at 0x5000.\<close>

definition libc_ok :: "unit libc" where
  "libc_ok =
     \<lparr>real_malloc = Some (\<lambda>h sz. (0x5000, h)),
      real_calloc = Some (\<lambda>h nmemb sz. (0x5000, h)),
      real_realloc = Some (\<lambda>h p sz. (0x5000, h)),
      real_strdup = Some (\<lambda>h str. (0x5000, h)),
      real_strndup = Some (\<lambda>h str n. (0x5000, h))\<rparr>"

text \<open>
  The new table after \<open>lookup_caller\<close> has made the record of the call site 0x1000, after
  the first call of the site has failed, and after a later call of it.
\<close>

definition table_created :: Data where
  "table_created =
     new_table\<lparr>records := (records new_table)[0 := \<lparr>caller = 0x1000, status = 0\<rparr>],
               record_count := 1\<rparr>"

definition table_failed :: Data where
  "table_failed = or_status table_created 0 tested_failure"

definition table_both :: Data where
  "table_both = or_status table_failed 0 tested_success"

text \<open>
  A C library whose allocators are out of memory (they return \<open>NULL\<close>), and where
  \<open>dlsym\<close> found neither \<open>strdup\<close> nor \<open>strndup\<close>.
\<close>

definition libc_null :: "unit libc" where
  "libc_null =
     \<lparr>real_malloc = Some (\<lambda>h sz. (NULL, h)),
      real_calloc = Some (\<lambda>h nmemb sz. (NULL, h)),
      real_realloc = Some (\<lambda>h p sz. (NULL, h)),
      real_strdup = None,
      real_strndup = None\<rparr>"

text \<open>
  The target of the scenario: one allocation call site; on \<open>NULL\<close> the program exits
  with code 2, otherwise it runs to its end and exits with 0.
\<close>

definition prog_single :: prog where
  "prog_single =
     Call 0x1000 (Malloc 16) (\<lambda>p. if p = NULL then Halt (Exited 2) else Halt (Exited 0))"

definition sys_single :: "unit sys" where
  "sys_single =
     \<lparr>dlsym = libc_ok, mmap_result = 0x7000, heap = (),
      fork_succeeds = (\<lambda>n. True), target = (\<lambda>n. prog_single)\<rparr>"

text \<open>
  \<open>dlsym\<close> does not find \<open>strdup\<close>; the target duplicates a string at one call site and
  tries once more when it gets \<open>NULL\<close>.
\<close>

definition prog_strdup :: prog where
  "prog_strdup =
     Call 0x1000 (Strdup 0x2000)
       (\<lambda>p. if p = NULL then Call 0x1000 (Strdup 0x2000) (\<lambda>q. Halt (Exited 0))
            else Halt (Exited 0))"

definition sys_no_strdup :: "unit sys" where
  "sys_no_strdup =
     \<lparr>dlsym = libc_ok\<lparr>real_strdup := None\<rparr>, mmap_result = 0x7000, heap = (),
      fork_succeeds = (\<lambda>n. True), target = (\<lambda>n. prog_strdup)\<rparr>"

definition sys_mmap_failed :: "unit sys" where
  "sys_mmap_failed = sys_single\<lparr>mmap_result := MAP_FAILED\<rparr>"

text \<open>A table at its capacity: 1024 records, for the call sites 0 to 1023.\<close>

definition table_full :: Data where
  "table_full =
     \<lparr>record_count = 1024, max_records = 1024,
      records = map (\<lambda>i. \<lparr>caller = of_nat i, status = 3\<rparr>) [0 ..< 1024]\<rparr>"

text \<open>A target that calls \<open>malloc\<close> again from the same site when it gets \<open>NULL\<close>.\<close>

definition prog_retry :: prog where
  "prog_retry =
     Call 0x1000 (Malloc 16)
       (\<lambda>p. if p = NULL
            then Call 0x1000 (Malloc 16) (\<lambda>q. if q = NULL then Halt (Exited 2) else Halt (Exited 0))
            else Halt (Exited 0))"

text \<open>
  A target that calls \<open>malloc\<close> from \<open>n\<close> call sites in a row, the sites \<open>i\<close>, \<open>i + 1\<close>,
  ..., whatever the calls return, and then exits with 0.
\<close>

fun prog_sites :: "nat \<Rightarrow> nat \<Rightarrow> prog" where
  "prog_sites 0 i = Halt (Exited 0)"
| "prog_sites (Suc n) i = Call (of_nat i) (Malloc 16) (\<lambda>p. prog_sites n (Suc i))"

definition sys_sites :: "unit sys" where
  "sys_sites =
     \<lparr>dlsym = libc_ok, mmap_result = 0x7000, heap = (),
      fork_succeeds = (\<lambda>n. True), target = (\<lambda>n. prog_sites 1025 0)\<rparr>"

text \<open>
  A C library whose \<open>malloc\<close> fails for the size \<open>SIZE_MAX\<close> only.
\<close>

definition libc_limit :: "unit libc" where
  "libc_limit =
     libc_ok\<lparr>real_malloc := Some (\<lambda>h sz. (if sz = - 1 then NULL else 0x5000, h))\<rparr>"

section \<open>Properties of the wrappers\<close>

text \<open>All five wrappers are one policy around the real call.\<close>

lemma intercept_eq:
  "intercept L c r s =
     (case lookup_caller (fst s) c of
        Inl e \<Rightarrow> Inl e
      | Inr (rec, d) \<Rightarrow>
          if status (records d ! rec) AND tested_failure = 0
          then Inr (NULL, or_status d rec tested_failure, snd s)
          else (case real_call L r of
                  None \<Rightarrow> Inl (Signaled SIGSEGV, or_status d rec tested_success)
                | Some g \<Rightarrow> Inr (fst (g (snd s)), or_status d rec tested_success, snd (g (snd s)))))"
  by (cases r)
     (auto simp: malloc_def calloc_def realloc_def strdup_def strndup_def Let_def
           split: sum.splits option.splits)

lemma lookup_loop_Some:
  "lookup_loop d c i = Some j \<Longrightarrow> i \<le> j \<and> j < record_count d \<and> caller (records d ! j) = c"
proof (induction d c i rule: lookup_loop.induct)
  case (1 d c i)
  then show ?case
    by (subst (asm) (2) lookup_loop.simps) (auto split: if_splits)
qed

lemma lookup_loop_None:
  "lookup_loop d c i = None \<Longrightarrow> i \<le> j \<Longrightarrow> j < record_count d \<Longrightarrow> caller (records d ! j) \<noteq> c"
proof (induction d c i rule: lookup_loop.induct)
  case (1 d c i)
  show ?case
  proof (cases "i = j")
    case True
    with "1.prems" show ?thesis
      by (subst (asm) lookup_loop.simps) (auto split: if_splits)
  next
    case False
    with "1.prems" have "lookup_loop d c (Suc i) = None" and "i < record_count d" and "caller (records d ! i) \<noteq> c"
      by (subst (asm) lookup_loop.simps, auto split: if_splits)+
    with "1.IH" "1.prems" False show ?thesis by auto
  qed
qed

lemma lookup_loop_None_iff:
  "lookup_loop d c 0 = None \<longleftrightarrow> c \<notin> set (callers d)"
proof
  assume "lookup_loop d c 0 = None"
  then show "c \<notin> set (callers d)"
    using lookup_loop_None [of d c 0] by (fastforce simp: callers_def)
next
  assume n: "c \<notin> set (callers d)"
  show "lookup_loop d c 0 = None"
  proof (cases "lookup_loop d c 0")
    case None then show ?thesis .
  next
    case (Some j)
    from lookup_loop_Some [OF Some] n show ?thesis
      by (fastforce simp: callers_def)
  qed
qed

lemma lookup_caller_Inl:
  "lookup_caller d c = Inl e \<longleftrightarrow>
     c \<notin> set (callers d) \<and> max_records d \<le> record_count d \<and> e = (Exited EXIT_FAILURE, d)"
  using lookup_loop_None_iff [of d c]
  by (auto simp: lookup_caller_def split: option.splits)

lemma lookup_caller_found:
  assumes "lookup_caller d c = Inr (rec, d1)" and "c \<in> set (callers d)"
  shows "d1 = d \<and> rec < record_count d \<and> caller (records d ! rec) = c"
proof -
  from assms(2) obtain j where j: "lookup_loop d c 0 = Some j"
    using lookup_loop_None_iff [of d c] by (cases "lookup_loop d c 0") auto
  from assms(1) j have "rec = j" and "d1 = d"
    by (auto simp: lookup_caller_def)
  with lookup_loop_Some [OF j] show ?thesis by simp
qed

lemma lookup_caller_new:
  assumes "lookup_caller d c = Inr (rec, d1)" and "c \<notin> set (callers d)"
  shows "record_count d < max_records d \<and> rec = record_count d \<and>
         d1 = d\<lparr>records := (records d)[record_count d := \<lparr>caller = c, status = 0\<rparr>],
                record_count := record_count d + 1\<rparr>"
proof -
  from assms(2) have "lookup_loop d c 0 = None"
    by (simp add: lookup_loop_None_iff)
  with assms(1) show ?thesis
    by (auto simp: lookup_caller_def split: if_splits)
qed

lemma callers_append:
  assumes "record_count d < length (records d)"
  shows "callers (d\<lparr>records := (records d)[record_count d := \<lparr>caller = c, status = s\<rparr>],
                    record_count := record_count d + 1\<rparr>) = callers d @ [c]"
  using assms by (simp add: callers_def nth_list_update)

lemma lookup_caller_props:
  assumes ok: "table_ok d" and lk: "lookup_caller d c = Inr (rec, d1)"
  shows "table_ok d1 \<and> evolves d d1 \<and> rec < record_count d1 \<and>
         caller (records d1 ! rec) = c \<and>
         callers d1 = (if c \<in> set (callers d) then callers d else callers d @ [c]) \<and>
         (c \<notin> set (callers d) \<longrightarrow> status (records d1 ! rec) = 0)"
proof (cases "c \<in> set (callers d)")
  case True
  from lookup_caller_found [OF lk True] ok True show ?thesis
    by (auto simp: evolves_def)
next
  case False
  note n = lookup_caller_new [OF lk False]
  from n ok have lt: "record_count d < length (records d)"
    by (simp add: table_ok_def)
  from n ok lt have "table_ok d1" by (simp add: table_ok_def)
  moreover from n lt have "evolves d d1" by (simp add: evolves_def nth_list_update)
  moreover from n have "rec < record_count d1" by simp
  moreover from n lt have "caller (records d1 ! rec) = c" by simp
  moreover from n False callers_append [OF lt, of c 0]
  have "callers d1 = (if c \<in> set (callers d) then callers d else callers d @ [c])"
    by simp
  moreover from n lt have "status (records d1 ! rec) = 0" by simp
  ultimately show ?thesis by simp
qed

lemma or_status_props:
  assumes "table_ok d" and "i < record_count d"
  shows "table_ok (or_status d i f)" and "evolves d (or_status d i f)"
    and "callers (or_status d i f) = callers d"
    and "record_count (or_status d i f) = record_count d"
    and "status (records (or_status d i f) ! i) = status (records d ! i) OR f"
    and "j \<noteq> i \<Longrightarrow> records (or_status d i f) ! j = records d ! j"
  using assms
  by (auto simp: table_ok_def or_status_def evolves_def callers_def nth_list_update
           word_bw_assocs word_ao_absorbs)

lemma evolves_refl: "evolves d d"
  by (simp add: evolves_def)

lemma status_le_trans:
  fixes a b c :: cint
  assumes "a AND b = a" and "b AND c = b"
  shows "a AND c = a"
proof -
  have "a AND c = (a AND b) AND c" using assms(1) by simp
  also have "\<dots> = a AND (b AND c)" by (simp add: word_bw_assocs)
  also have "\<dots> = a" using assms by simp
  finally show ?thesis .
qed

lemma evolves_trans:
  assumes "evolves a b" and "evolves b c"
  shows "evolves a c"
  unfolding evolves_def
proof (intro conjI allI impI)
  fix i assume i: "i < record_count a"
  with assms have ib: "i < record_count b" by (simp add: evolves_def)
  from assms i ib show "caller (records c ! i) = caller (records a ! i)"
    by (simp add: evolves_def)
  from assms i ib have "status (records a ! i) AND status (records b ! i) = status (records a ! i)"
    and "status (records b ! i) AND status (records c ! i) = status (records b ! i)"
    by (simp_all add: evolves_def)
  then show "status (records a ! i) AND status (records c ! i) = status (records a ! i)"
    by (rule status_le_trans)
qed (use assms in \<open>simp_all add: evolves_def\<close>)

lemma intercept_Inr:
  assumes ok: "table_ok d" and i: "intercept L c r (d, h) = Inr (p, d', h')"
  shows "table_ok d' \<and> evolves d d' \<and>
         callers d' = (if c \<in> set (callers d) then callers d else callers d @ [c])"
proof -
  from i obtain rec d1 where lk: "lookup_caller d c = Inr (rec, d1)"
    and d': "d' = or_status d1 rec tested_failure \<or> d' = or_status d1 rec tested_success"
    by (auto simp: intercept_eq split: sum.splits if_splits option.splits)
  note p = lookup_caller_props [OF ok lk]
  from p have ok1: "table_ok d1" and r: "rec < record_count d1" by simp_all
  from d' or_status_props(1-3) [OF ok1 r] p evolves_trans [of d d1]
  show ?thesis by auto
qed

lemma intercept_Inl:
  assumes ok: "table_ok d" and i: "intercept L c r (d, h) = Inl (w, d')"
  shows "table_ok d' \<and> evolves d d' \<and> callers d' = callers d"
proof (cases "lookup_caller d c")
  case (Inl e)
  with i have "d' = d"
    by (auto simp: intercept_eq lookup_caller_Inl)
  with ok show ?thesis by (simp add: evolves_refl)
next
  case (Inr x)
  then obtain rec d1 where lk: "lookup_caller d c = Inr (rec, d1)" by (cases x) auto
  with i have d': "d' = or_status d1 rec tested_success"
    and f: "status (records d1 ! rec) AND tested_failure \<noteq> 0"
    by (auto simp: intercept_eq split: if_splits option.splits)
  note p = lookup_caller_props [OF ok lk]
  from p have ok1: "table_ok d1" and r: "rec < record_count d1" by simp_all
  from p f have "c \<in> set (callers d)" by auto
  with p have "callers d1 = callers d" by simp
  with d' or_status_props(1-3) [OF ok1 r] p evolves_trans [of d d1]
  show ?thesis by auto
qed

text \<open>
  C1. Every intercepted call (\<open>malloc\<close>, \<open>calloc\<close>, \<open>realloc\<close>, \<open>strdup\<close>, \<open>strndup\<close>)
  whose call site has the record \<open>rec\<close>: if \<open>has_failed\<close> is clear, the wrapper sets it and
  returns \<open>NULL\<close>, with the heap untouched and whatever the real allocator is (it is not
  called); otherwise it sets \<open>has_succeeded\<close> and returns the pointer and the heap of the
  real allocator.
\<close>

theorem wrapper_policy:
  assumes ok: "table_ok d" and lk: "lookup_caller d c = Inr (rec, d1)"
  shows "(\<not> has_failed (records d1 ! rec) \<longrightarrow>
            intercept L c r (d, h) = Inr (NULL, or_status d1 rec tested_failure, h) \<and>
            has_failed (records (or_status d1 rec tested_failure) ! rec)) \<and>
         (has_failed (records d1 ! rec) \<longrightarrow>
            (\<forall>g. real_call L r = Some g \<longrightarrow>
               intercept L c r (d, h) = Inr (fst (g h), or_status d1 rec tested_success, snd (g h)) \<and>
               has_succeeded (records (or_status d1 rec tested_success) ! rec)))"
proof -
  note p = lookup_caller_props [OF ok lk]
  from p have ok1: "table_ok d1" and r: "rec < record_count d1" by simp_all
  have a: "has_failed (records (or_status d1 rec tested_failure) ! rec)"
    using or_status_props(5) [OF ok1 r, of tested_failure]
    by (simp add: has_failed_def tested_failure_def word_ao_absorbs)
  have b: "has_succeeded (records (or_status d1 rec tested_success) ! rec)"
    using or_status_props(5) [OF ok1 r, of tested_success]
    by (simp add: has_succeeded_def tested_success_def word_ao_absorbs)
  from lk a b show ?thesis
    by (simp add: intercept_eq has_failed_def)
qed

lemma table_ok_new: "table_ok new_table"
  by (simp add: table_ok_def new_table_def)

theorem wrapper_policy_witness:
  "intercept libc_ok 0x1000 (Malloc 16) (new_table, ()) = Inr (NULL, table_failed, ()) \<and>
   has_failed (records table_failed ! 0) \<and>
   intercept libc_ok 0x1000 (Malloc 16) (table_failed, ()) = Inr (0x5000, table_both, ()) \<and>
   has_succeeded (records table_both ! 0)"
proof -
  have lk1: "lookup_caller new_table 0x1000 = Inr (0, table_created)"
    by code_simp
  have nf: "\<not> has_failed (records table_created ! 0)"
    by code_simp
  have ok2: "table_ok table_failed"
    by code_simp
  have lk2: "lookup_caller table_failed 0x1000 = Inr (0, table_failed)"
    by code_simp
  have f: "has_failed (records table_failed ! 0)"
    by code_simp
  have g: "real_call libc_ok (Malloc 16) = Some (\<lambda>h. (0x5000, h))"
    by (simp add: libc_ok_def)
  from wrapper_policy [OF table_ok_new lk1, of libc_ok "Malloc 16" "()"] nf
       wrapper_policy [OF ok2 lk2, of libc_ok "Malloc 16" "()"] f g
  show ?thesis
    by (simp add: table_failed_def table_both_def)
qed

section \<open>Properties of tests_complete\<close>

lemma tcl_zero:
  "fst (tests_complete_loop d i (0, cs)) = 0"
proof (induction d i "(0 :: cint, cs)" arbitrary: cs rule: tests_complete_loop.induct)
  case (1 d i cs)
  show ?case
    by (subst tests_complete_loop.simps) (simp add: "1.hyps")
qed

lemma flag_bits_disjoint:
  fixes dn s :: cint
  shows "(dn AND (s AND tested_failure)) AND (s AND tested_success) = 0"
proof -
  have "(dn AND (s AND tested_failure)) AND (s AND tested_success)
        = (dn AND s) AND (tested_failure AND tested_success)"
    by (simp add: word_bw_assocs word_bw_comms word_bw_lcs)
  also have "tested_failure AND tested_success = 0"
    by (simp add: tested_failure_def tested_success_def)
  finally show ?thesis by simp
qed

lemma tcl_done_cleared:
  assumes "i < record_count d"
  shows "fst (tests_complete_loop d i (dn, cs)) = 0"
  using assms
  by (subst tests_complete_loop.simps) (simp add: flag_bits_disjoint tcl_zero)

lemma tcl_snd_indep:
  "snd (tests_complete_loop d i (dn, cs)) = snd (tests_complete_loop d i (dn', cs))"
proof (induction d i "(dn, cs)" arbitrary: dn dn' cs rule: tests_complete_loop.induct)
  case (1 d i dn cs)
  show ?case
    by (subst tests_complete_loop.simps, subst (2) tests_complete_loop.simps)
       (auto intro: "1.hyps")
qed

lemma tcl_empty: "record_count d \<le> i \<Longrightarrow> tests_complete_loop d i a = a"
  by (cases a) (simp add: tests_complete_loop.simps)

lemma tests_complete_eq:
  "tests_complete st d =
     (if (last_record_count st = record_count d \<and> last_checksum st = checksum d)
           \<or> record_count d = 0
      then 1 else 0,
      \<lparr>last_record_count = record_count d, last_checksum = checksum d\<rparr>)"
proof (cases "record_count d = 0")
  case True
  then show ?thesis
    by (simp add: tests_complete_def checksum_def tcl_empty)
next
  case False
  then have "fst (tests_complete_loop d 0 (1, 0)) = 0"
    by (simp add: tcl_done_cleared)
  with False show ?thesis
    by (auto simp: tests_complete_def checksum_def split: prod.splits)
qed

text \<open>
  C3. When the record count and the checksum computed after a run equal those computed
  after the previous run, \<open>tests_complete\<close> returns 1: the campaign has converged,
  whatever the flags are.
\<close>

theorem plateau_converges:
  assumes "record_count d2 = record_count d1" and "checksum d2 = checksum d1"
  shows "fst (tests_complete (snd (tests_complete st d1)) d2) = 1"
  using assms by (simp add: tests_complete_eq)

theorem plateau_converges_witness:
  "record_count table_failed = record_count table_failed \<and>
   checksum table_failed = checksum table_failed \<and>
   \<not> has_succeeded (records table_failed ! 0) \<and>
   fst (tests_complete (snd (tests_complete statics0 table_failed)) table_failed) = 1"
proof -
  have "\<not> has_succeeded (records table_failed ! 0)"
    by code_simp
  with plateau_converges [of table_failed table_failed statics0] show ?thesis
    by simp
qed

text \<open>
  C2. Full coverage is not detected. The table holds one record with both flags set;
  \<open>tests_complete\<close> returns 0, both on the first call and after a run that left the
  status at 1: \<open>done &= (status & tested_success)\<close> conjoins 1 with 2.
\<close>

theorem full_coverage_not_detected:
  "record_count table_both = 1 \<and>
   has_failed (records table_both ! 0) \<and> has_succeeded (records table_both ! 0) \<and>
   tests_complete statics0 table_both = (0, \<lparr>last_record_count = 1, last_checksum = 3\<rparr>) \<and>
   tests_complete \<lparr>last_record_count = 1, last_checksum = 1\<rparr> table_both
     = (0, \<lparr>last_record_count = 1, last_checksum = 3\<rparr>)"
  by code_simp

lemma report_nth:
  "i < record_count d \<Longrightarrow>
   report d ! i = (caller (records d ! i), has_succeeded (records d ! i), has_failed (records d ! i))"
  by (simp add: report_def has_succeeded_def has_failed_def)

text \<open>
  C10. At a call site whose record has \<open>has_failed\<close> set, the wrapper stores
  \<open>has_succeeded\<close> whatever the real allocator then does: the table after the call is the
  same whether the real allocator returns a block or \<open>NULL\<close>, and also when the call
  through an unresolved pointer faults; the report line of the site reads "yes", "yes".
\<close>

theorem success_flag_unconditional:
  assumes ok: "table_ok d" and lk: "lookup_caller d c = Inr (rec, d1)"
    and f: "has_failed (records d1 ! rec)"
  shows "has_succeeded (records (or_status d1 rec tested_success) ! rec) \<and>
         report (or_status d1 rec tested_success) ! rec = (c, True, True) \<and>
         (case real_call L r of
            None \<Rightarrow> intercept L c r (d, h) = Inl (Signaled SIGSEGV, or_status d1 rec tested_success)
          | Some g \<Rightarrow>
              intercept L c r (d, h) = Inr (fst (g h), or_status d1 rec tested_success, snd (g h)))"
proof -
  note p = lookup_caller_props [OF ok lk]
  from p have ok1: "table_ok d1" and r: "rec < record_count d1"
    and c: "caller (records d1 ! rec) = c" by simp_all
  let ?d = "or_status d1 rec tested_success"
  note q = or_status_props [OF ok1 r, where f = tested_success]
  have s: "has_succeeded (records ?d ! rec)"
    using q(5) by (simp add: has_succeeded_def tested_success_def word_ao_absorbs)
  have "status (records ?d ! rec) AND tested_failure \<noteq> 0"
  proof
    assume z: "status (records ?d ! rec) AND tested_failure = 0"
    have "status (records d1 ! rec) AND tested_failure
          = (status (records d1 ! rec) AND status (records ?d ! rec)) AND tested_failure"
      using q(2) r by (simp add: evolves_def)
    also have "\<dots> = status (records d1 ! rec) AND (status (records ?d ! rec) AND tested_failure)"
      by (simp add: word_bw_assocs)
    also have "\<dots> = 0" using z by simp
    finally show False using f by (simp add: has_failed_def)
  qed
  then have fl: "has_failed (records ?d ! rec)" by (simp add: has_failed_def)
  have cl: "caller (records ?d ! rec) = c"
    using q(2) r c by (simp add: evolves_def)
  have rp: "report ?d ! rec = (c, True, True)"
    using report_nth [of rec ?d] q(4) r s fl cl by simp
  from lk f have "(case real_call L r of
            None \<Rightarrow> intercept L c r (d, h) = Inl (Signaled SIGSEGV, ?d)
          | Some g \<Rightarrow> intercept L c r (d, h) = Inr (fst (g h), ?d, snd (g h)))"
    by (simp add: intercept_eq has_failed_def split: option.splits)
  with s rp show ?thesis by simp
qed

theorem success_flag_unconditional_witness:
  "lookup_caller table_failed 0x1000 = Inr (0, table_failed) \<and>
   has_failed (records table_failed ! 0) \<and>
   intercept libc_null 0x1000 (Malloc 16) (table_failed, ()) = Inr (NULL, table_both, ()) \<and>
   has_succeeded (records table_both ! 0) \<and>
   report table_both ! 0 = (0x1000, True, True) \<and>
   intercept libc_null 0x1000 (Strdup 0x2000) (table_failed, ()) = Inl (Signaled SIGSEGV, table_both)"
proof -
  have ok: "table_ok table_failed"
    by code_simp
  have lk: "lookup_caller table_failed 0x1000 = Inr (0, table_failed)"
    by code_simp
  have f: "has_failed (records table_failed ! 0)"
    by code_simp
  have g: "real_call libc_null (Malloc 16) = Some (\<lambda>h. (NULL, h))"
    and n: "real_call libc_null (Strdup 0x2000) = None"
    by (simp_all add: libc_null_def)
  from success_flag_unconditional [OF ok lk f, of libc_null "Malloc 16" "()"]
       success_flag_unconditional [OF ok lk f, of libc_null "Strdup 0x2000" "()"] lk f
  show ?thesis
    unfolding g n by (simp add: table_both_def)
qed

section \<open>The scenario and the setup errors\<close>

text \<open>
  C8. The scenario. Run 1 ends with exit code 2 and leaves the record at \<open>has_failed\<close>
  only; in run 2 the call returns the real block and the record has both flags. But
  \<open>tests_complete\<close> returns 0 after run 2, and the campaign ends after a third run, by
  the plateau rule.
\<close>

theorem scenario_takes_three_runs:
  "run_child libc_ok prog_single (new_table, ()) = (Exited 2, table_failed, [(0x1000, NULL)]) \<and>
   run_child libc_ok prog_single (table_failed, ()) = (Exited 0, table_both, [(0x1000, 0x5000)]) \<and>
   report table_failed = [(0x1000, False, True)] \<and>
   report table_both = [(0x1000, True, True)] \<and>
   fst (tests_complete (snd (tests_complete statics0 table_failed)) table_both) = 0 \<and>
   init sys_single = Some (Finished 3 [(0x1000, True, True)])"
  by code_simp

text \<open>
  C9. With \<open>strdup\<close> unresolved \<open>init\<close> does not stop: the campaign runs the target,
  whose children die in the call through the null pointer, and ends with
  \<open>exit(EXIT_SUCCESS)\<close>. When \<open>mmap\<close> fails, \<open>init\<close> does not reach
  \<open>exit(EXIT_FAILURE)\<close> either.
\<close>

theorem unresolved_strdup_not_fatal:
  "real_strdup (dlsym sys_no_strdup) = None \<and>
   run_child (dlsym sys_no_strdup) prog_strdup (new_table, ())
     = (Signaled SIGSEGV, table_both, [(0x1000, NULL)]) \<and>
   init sys_no_strdup = Some (Finished 2 [(0x1000, True, True)]) \<and>
   exit_code (Finished 2 [(0x1000, True, True)]) = Some EXIT_SUCCESS \<and>
   mmap_result sys_mmap_failed = MAP_FAILED \<and>
   init sys_mmap_failed = Some (Killed SIGSEGV)"
  by code_simp

section \<open>A table at its capacity\<close>

lemma capacity_exit:
  assumes "c \<notin> set (callers d)" and "max_records d \<le> record_count d"
  shows "lookup_caller d c = Inl (Exited EXIT_FAILURE, d)"
    and "intercept L c r (d, h) = Inl (Exited EXIT_FAILURE, d)"
    and "run_child L (Call c r k) (d, h) = (Exited EXIT_FAILURE, d, [])"
proof -
  from assms show a: "lookup_caller d c = Inl (Exited EXIT_FAILURE, d)"
    by (simp add: lookup_caller_Inl)
  then show b: "intercept L c r (d, h) = Inl (Exited EXIT_FAILURE, d)"
    by (simp add: intercept_eq)
  then show "run_child L (Call c r k) (d, h) = (Exited EXIT_FAILURE, d, [])"
    by simp
qed

lemma run_loop_exited:
  assumes "fork_ok (n + 1)" and "child (n + 1) d = (Exited e, d')"
  shows "run_loop fork_ok child d st n =
           (if fst (tests_complete st d') = 0
            then run_loop fork_ok child d' (snd (tests_complete st d')) (n + 1)
            else Some (Finished (n + 1) (report d')))"
  using assms
  by (subst run_loop.simps) (simp split: prod.splits)

lemma callers_table_full: "callers table_full = map of_nat [0 ..< 1024]"
  by (simp add: callers_def table_full_def)

lemma site_not_in_table_full: "(0x1000 :: ptr) \<notin> set (callers table_full)"
proof
  assume "(0x1000 :: ptr) \<in> set (callers table_full)"
  then obtain i :: nat where i: "i < 1024" and e: "(of_nat i :: ptr) = 0x1000"
    by (auto simp: callers_table_full)
  from i have "unat (of_nat i :: ptr) = i"
    by (simp add: unat_of_nat)
  with e have "i = 4096" by simp
  with i show False by simp
qed

lemma table_full_at_capacity: "max_records table_full \<le> record_count table_full"
  by (simp add: table_full_def)

lemma run_child_table_full:
  "run_child L prog_single (table_full, h) = (Exited EXIT_FAILURE, table_full, [])"
  unfolding prog_single_def
  by (rule capacity_exit(3) [OF site_not_in_table_full table_full_at_capacity])

lemma child_of_table_full:
  "child_of sys_single n table_full = (Exited EXIT_FAILURE, table_full)"
  by (simp add: child_of_def sys_single_def run_child_table_full)

text \<open>
  Started on the full table, with a target that calls \<open>malloc\<close> from a site the table
  does not hold, \<open>run_tests\<close> makes two runs, both ended by \<open>exit(EXIT_FAILURE)\<close> in the
  child, and then finishes with the report and \<open>exit(EXIT_SUCCESS)\<close>.
\<close>

lemma full_table_campaign:
  "record_count table_full = 1024 \<and>
   (0x1000 :: ptr) \<notin> set (callers table_full) \<and>
   run_tests sys_single table_full = Some (Finished 2 (report table_full)) \<and>
   exit_code (Finished 2 (report table_full)) = Some EXIT_SUCCESS"
proof -
  have f: "fork_succeeds sys_single n" for n
    by (simp add: sys_single_def)
  have t1: "tests_complete statics0 table_full
            = (0, \<lparr>last_record_count = 1024, last_checksum = checksum table_full\<rparr>)"
    by (simp add: tests_complete_eq statics0_def table_full_def)
  have t2: "fst (tests_complete \<lparr>last_record_count = 1024, last_checksum = checksum table_full\<rparr>
                   table_full) = 1"
    by (simp add: tests_complete_eq table_full_def)
  let ?st = "\<lparr>last_record_count = 1024, last_checksum = checksum table_full\<rparr>"
  have r2: "run_loop (fork_succeeds sys_single) (child_of sys_single) table_full ?st (Suc 0)
            = Some (Finished (Suc 0 + 1) (report table_full))"
    using run_loop_exited [where fork_ok = "fork_succeeds sys_single"
            and child = "child_of sys_single" and n = "Suc 0" and d = table_full
            and d' = table_full and e = EXIT_FAILURE and st = ?st] t2
    by (simp add: f child_of_table_full)
  have "run_loop (fork_succeeds sys_single) (child_of sys_single) table_full statics0 0
            = run_loop (fork_succeeds sys_single) (child_of sys_single) table_full ?st (Suc 0)"
    using run_loop_exited [where fork_ok = "fork_succeeds sys_single"
            and child = "child_of sys_single" and n = 0 and d = table_full and d' = table_full
            and e = EXIT_FAILURE and st = statics0] t1
    by (simp add: f child_of_table_full)
  with r2 have "run_tests sys_single table_full = Some (Finished 2 (report table_full))"
    by (simp add: run_tests_def)
  with site_not_in_table_full show ?thesis
    by (simp add: table_full_def)
qed

section \<open>Invariants of the coverage table\<close>

lemma evolves_has_failed:
  assumes "evolves d d'" and "i < record_count d" and "has_failed (records d ! i)"
  shows "has_failed (records d' ! i)"
proof -
  from assms(1,2) have e: "status (records d ! i) AND status (records d' ! i) = status (records d ! i)"
    by (simp add: evolves_def)
  have "status (records d' ! i) AND tested_failure \<noteq> 0"
  proof
    assume z: "status (records d' ! i) AND tested_failure = 0"
    have "status (records d ! i) AND tested_failure
          = (status (records d ! i) AND status (records d' ! i)) AND tested_failure"
      by (simp add: e)
    also have "\<dots> = status (records d ! i) AND (status (records d' ! i) AND tested_failure)"
      by (simp add: word_bw_assocs)
    also have "\<dots> = 0" using z by simp
    finally show False using assms(3) by (simp add: has_failed_def)
  qed
  then show ?thesis by (simp add: has_failed_def)
qed

lemma evolves_has_succeeded:
  assumes "evolves d d'" and "i < record_count d" and "has_succeeded (records d ! i)"
  shows "has_succeeded (records d' ! i)"
proof -
  from assms(1,2) have e: "status (records d ! i) AND status (records d' ! i) = status (records d ! i)"
    by (simp add: evolves_def)
  have "status (records d' ! i) AND tested_success \<noteq> 0"
  proof
    assume z: "status (records d' ! i) AND tested_success = 0"
    have "status (records d ! i) AND tested_success
          = (status (records d ! i) AND status (records d' ! i)) AND tested_success"
      by (simp add: e)
    also have "\<dots> = status (records d ! i) AND (status (records d' ! i) AND tested_success)"
      by (simp add: word_bw_assocs)
    also have "\<dots> = 0" using z by simp
    finally show False using assms(3) by (simp add: has_succeeded_def)
  qed
  then show ?thesis by (simp add: has_succeeded_def)
qed

lemma intercept_inv:
  assumes ok: "table_ok d"
  shows "intercept L c r (d, h) = Inr (p, d', h') \<Longrightarrow>
           table_ok d' \<and> evolves d d' \<and> (distinct (callers d) \<longrightarrow> distinct (callers d'))"
    and "intercept L c r (d, h) = Inl (w, d') \<Longrightarrow>
           table_ok d' \<and> evolves d d' \<and> (distinct (callers d) \<longrightarrow> distinct (callers d'))"
  using intercept_Inr [OF ok, of L c r h p d' h'] intercept_Inl [OF ok, of L c r h w d']
  by auto

lemma run_child_inv:
  assumes "table_ok d" and "run_child L p (d, h) = (w, d', es)"
  shows "table_ok d' \<and> evolves d d' \<and> (distinct (callers d) \<longrightarrow> distinct (callers d'))"
  using assms
proof (induction p arbitrary: d h w d' es)
  case (Halt x)
  then show ?case by (simp add: evolves_refl)
next
  case (Call c r k)
  show ?case
  proof (cases "intercept L c r (d, h)")
    case (Inl a)
    then obtain w1 d1 where i: "intercept L c r (d, h) = Inl (w1, d1)" by (cases a) auto
    with Call.prems have "d' = d1" by simp
    with intercept_inv(2) [OF Call.prems(1) i] show ?thesis by simp
  next
    case (Inr b)
    then obtain q d1 h1 where i: "intercept L c r (d, h) = Inr (q, d1, h1)"
      by (cases b) auto
    note s = intercept_inv(1) [OF Call.prems(1) i]
    from Call.prems(2) i obtain es1 where "run_child L (k q) (d1, h1) = (w, d', es1)"
      by (auto split: prod.splits)
    with Call.IH [of "k q" d1 h1 w d' es1] s
    have "table_ok d' \<and> evolves d1 d' \<and> (distinct (callers d1) \<longrightarrow> distinct (callers d'))"
      by simp
    with s evolves_trans [of d d1 d'] show ?thesis by blast
  qed
qed

lemma run_children_inv:
  assumes "table_ok d" and "run_children L h ps d = (d', es)"
  shows "table_ok d' \<and> evolves d d' \<and> (distinct (callers d) \<longrightarrow> distinct (callers d'))"
  using assms
proof (induction ps arbitrary: d d' es)
  case Nil
  then show ?case by (simp add: evolves_refl)
next
  case (Cons p ps)
  obtain w d1 es1 where r: "run_child L p (d, h) = (w, d1, es1)"
    by (cases "run_child L p (d, h)") auto
  note s = run_child_inv [OF Cons.prems(1) r]
  from Cons.prems(2) r obtain es2 where "run_children L h ps d1 = (d', es2)"
    by (auto split: prod.splits)
  with Cons.IH [of d1 d' es2] s
  have "table_ok d' \<and> evolves d1 d' \<and> (distinct (callers d1) \<longrightarrow> distinct (callers d'))"
    by simp
  with s evolves_trans [of d d1 d'] show ?case by blast
qed

text \<open>
  C5. Whatever the runs of a campaign do through the wrappers, the table stays within its
  bounds, the records it held stay where they were with the same caller, no two live
  records have the same caller, and a flag that was set is still set.
\<close>

theorem table_append_only:
  assumes "table_ok d" and "distinct (callers d)" and "run_children L h ps d = (d', es)"
  shows "table_ok d' \<and> distinct (callers d') \<and> record_count d \<le> record_count d' \<and>
         (\<forall>i<record_count d.
            caller (records d' ! i) = caller (records d ! i) \<and>
            (has_failed (records d ! i) \<longrightarrow> has_failed (records d' ! i)) \<and>
            (has_succeeded (records d ! i) \<longrightarrow> has_succeeded (records d' ! i)))"
proof -
  from run_children_inv [OF assms(1,3)] assms(2)
  have ok: "table_ok d'" and e: "evolves d d'" and u: "distinct (callers d')"
    by simp_all
  from e have "record_count d \<le> record_count d'"
    and "\<forall>i<record_count d. caller (records d' ! i) = caller (records d ! i)"
    by (simp_all add: evolves_def)
  with ok u evolves_has_failed [OF e] evolves_has_succeeded [OF e]
  show ?thesis by blast
qed

theorem table_append_only_witness:
  "run_children libc_ok () [prog_single, prog_single] table_failed
     = (table_both, [(0x1000, 0x5000), (0x1000, 0x5000)]) \<and>
   table_ok table_both \<and> distinct (callers table_both) \<and>
   record_count table_failed \<le> record_count table_both \<and>
   caller (records table_both ! 0) = caller (records table_failed ! 0) \<and>
   has_failed (records table_failed ! 0) \<and> has_failed (records table_both ! 0)"
proof -
  have ok: "table_ok table_failed"
    by code_simp
  have u: "distinct (callers table_failed)"
    by code_simp
  have r: "run_children libc_ok () [prog_single, prog_single] table_failed
             = (table_both, [(0x1000, 0x5000), (0x1000, 0x5000)])"
    by code_simp
  have n: "0 < record_count table_failed" and f: "has_failed (records table_failed ! 0)"
    by code_simp+
  from table_append_only [OF ok u r] n f r show ?thesis
    by blast
qed

section \<open>One failure for each call site\<close>

lemma length_callers: "length (callers d) = record_count d"
  by (simp add: callers_def)

lemma child_calls_events:
  "map (\<lambda>e. (call_site e, call_result e)) (child_calls L p s) = snd (snd (run_child L p s))"
proof (induction p arbitrary: s)
  case (Halt w)
  then show ?case by simp
next
  case (Call c r k)
  show ?case
  proof (cases "intercept L c r s")
    case (Inl a)
    then show ?thesis by (simp split: prod.splits)
  next
    case (Inr b)
    then obtain q d h where i: "intercept L c r s = Inr (q, d, h)" by (cases b) auto
    with Call [of "k q" "(d, h)"] show ?thesis
      by (simp add: call_site_def call_result_def split: prod.splits)
  qed
qed

lemma children_calls_events:
  "map (\<lambda>e. (call_site e, call_result e)) (children_calls L h ps d)
     = snd (run_children L h ps d)"
proof (induction ps arbitrary: d)
  case Nil
  then show ?case by simp
next
  case (Cons p ps)
  from Cons [of "fst (snd (run_child L p (d, h)))"] child_calls_events [of L p "(d, h)"]
  show ?case
    by (simp split: prod.splits)
qed

lemma intercept_fails_once:
  assumes ok: "table_ok d" and af: "all_failed d"
    and i: "intercept L c r (d, h) = Inr (p, d', h')"
  shows "all_failed d' \<and>
         (if c \<in> set (callers d) then delegated L (c, r, h, p) else p = NULL)"
proof -
  from i obtain rec d1 where lk: "lookup_caller d c = Inr (rec, d1)"
    by (auto simp: intercept_eq split: sum.splits)
  note q = lookup_caller_props [OF ok lk]
  from q have ok1: "table_ok d1" and r: "rec < record_count d1" by simp_all
  note e = intercept_Inr [OF ok i]
  show ?thesis
  proof (cases "c \<in> set (callers d)")
    case True
    from lookup_caller_found [OF lk True] af have d1: "d1 = d" and f: "has_failed (records d ! rec)"
      by (simp_all add: all_failed_def)
    with lk i obtain g where g: "real_call L r = Some g" and p: "p = fst (g h)"
      by (auto simp: intercept_eq has_failed_def split: option.splits)
    then have "delegated L (c, r, h, p)" by (simp add: delegated_def)
    moreover from e True have "record_count d' = record_count d"
      using length_callers [of d] length_callers [of d'] by simp
    with af e have "all_failed d'"
      using evolves_has_failed [of d d'] by (simp add: all_failed_def)
    ultimately show ?thesis using True by simp
  next
    case False
    with q have z: "status (records d1 ! rec) = 0" by simp
    with lk i have p: "p = NULL" and d': "d' = or_status d1 rec tested_failure"
      by (auto simp: intercept_eq split: option.splits)
    note n = lookup_caller_new [OF lk False]
    from n have rc: "rec = record_count d" "record_count d1 = record_count d + 1" by simp_all
    note o = or_status_props [OF ok1 r, where f = tested_failure]
    have "has_failed (records d' ! i)" if "i < record_count d'" for i
    proof (cases "i < record_count d")
      case True
      with af have "has_failed (records d ! i)" by (simp add: all_failed_def)
      with e True show ?thesis using evolves_has_failed [of d d' i] by simp
    next
      case False
      with that d' o(4) rc have "i = rec" by simp
      with d' o(5) show ?thesis
        by (simp add: has_failed_def tested_failure_def word_ao_absorbs)
    qed
    then have "all_failed d'" by (simp add: all_failed_def)
    with p False show ?thesis by simp
  qed
qed

lemma intercept_Inl_all_failed:
  assumes ok: "table_ok d" and af: "all_failed d" and i: "intercept L c r (d, h) = Inl (w, d')"
  shows "all_failed d'"
proof -
  note e = intercept_Inl [OF ok i]
  then have "record_count d' = record_count d"
    using length_callers [of d] length_callers [of d'] by simp
  with af e show ?thesis
    using evolves_has_failed [of d d'] by (simp add: all_failed_def)
qed

lemma child_calls_fails_once:
  assumes "table_ok d" and "all_failed d" and "run_child L p (d, h) = (w, d', es)"
  shows "table_ok d' \<and> all_failed d' \<and>
         set (callers d') = set (callers d) \<union> call_site ` set (child_calls L p (d, h)) \<and>
         fails_once L (set (callers d)) (child_calls L p (d, h))"
  using assms
proof (induction p arbitrary: d h w d' es)
  case (Halt x)
  then show ?case by auto
next
  case (Call c r k)
  show ?case
  proof (cases "intercept L c r (d, h)")
    case (Inl a)
    then obtain w1 d1 where i: "intercept L c r (d, h) = Inl (w1, d1)" by (cases a) auto
    with Call.prems have "d' = d1" by simp
    with i intercept_Inl [OF Call.prems(1) i] intercept_Inl_all_failed [OF Call.prems(1,2) i]
    show ?thesis by (simp del: intercept.simps)
  next
    case (Inr b)
    then obtain q d1 h1 where i: "intercept L c r (d, h) = Inr (q, d1, h1)"
      by (cases b) auto
    note s = intercept_Inr [OF Call.prems(1) i]
    note t = intercept_fails_once [OF Call.prems(1,2) i]
    from Call.prems(3) i obtain es1 where r1: "run_child L (k q) (d1, h1) = (w, d', es1)"
      by (auto split: prod.splits)
    from s t r1 Call.IH [of "k q" d1 h1 w d' es1]
    have ih: "table_ok d' \<and> all_failed d' \<and>
         set (callers d') = set (callers d1) \<union> call_site ` set (child_calls L (k q) (d1, h1)) \<and>
         fails_once L (set (callers d1)) (child_calls L (k q) (d1, h1))"
      by simp
    from s have c1: "set (callers d1) = insert c (set (callers d))" by auto
    have cs: "child_calls L (Call c r k) (d, h) = (c, r, h, q) # child_calls L (k q) (d1, h1)"
      using i by (simp del: intercept.simps)
    from ih t c1 show ?thesis
      unfolding cs by (auto simp: call_site_def call_result_def)
  qed
qed

lemma fails_once_append:
  "fails_once L S (es @ es') \<longleftrightarrow>
     fails_once L S es \<and> fails_once L (S \<union> call_site ` set es) es'"
  by (induction L S es rule: fails_once.induct) simp_all

lemma children_calls_fails_once:
  assumes "table_ok d" and "all_failed d" and "run_children L h ps d = (d', es)"
  shows "table_ok d' \<and> all_failed d' \<and>
         set (callers d') = set (callers d) \<union> call_site ` set (children_calls L h ps d) \<and>
         fails_once L (set (callers d)) (children_calls L h ps d)"
  using assms
proof (induction ps arbitrary: d d' es)
  case Nil
  then show ?case by auto
next
  case (Cons p ps)
  obtain w d1 es1 where r: "run_child L p (d, h) = (w, d1, es1)"
    by (cases "run_child L p (d, h)") auto
  note s = child_calls_fails_once [OF Cons.prems(1,2) r]
  from Cons.prems(3) r obtain es2 where r2: "run_children L h ps d1 = (d', es2)"
    by (auto split: prod.splits)
  from s r2 Cons.IH [of d1 d' es2]
  have ih: "table_ok d' \<and> all_failed d' \<and>
         set (callers d') = set (callers d1) \<union> call_site ` set (children_calls L h ps d1) \<and>
         fails_once L (set (callers d1)) (children_calls L h ps d1)"
    by simp
  with s r show ?case
    by (auto simp: fails_once_append)
qed

lemma fails_once_known_site:
  "fails_once L S es \<Longrightarrow> c \<in> S \<Longrightarrow> e \<in> set es \<Longrightarrow> call_site e = c \<Longrightarrow> delegated L e"
  by (induction L S es rule: fails_once.induct) (auto split: if_splits)

lemma fails_once_new_site:
  "fails_once L S es \<Longrightarrow> c \<notin> S \<Longrightarrow> c \<in> call_site ` set es \<Longrightarrow>
   \<exists>first rest. filter (\<lambda>e. call_site e = c) es = first # rest \<and>
          call_result first = NULL \<and> (\<forall>e\<in>set rest. delegated L e)"
proof (induction L S es rule: fails_once.induct)
  case (1 L S)
  then show ?case by simp
next
  case (2 L S e es)
  show ?case
  proof (cases "call_site e = c")
    case True
    with "2.prems" have p: "call_result e = NULL" and f: "fails_once L (insert c S) es"
      by simp_all
    have "\<forall>x\<in>set (filter (\<lambda>e. call_site e = c) es). delegated L x"
      using fails_once_known_site [OF f, of c] by auto
    with True p show ?thesis by simp
  next
    case False
    with "2.prems" "2.IH" show ?thesis by auto
  qed
qed

lemma callers_new_table: "callers new_table = []"
  by (simp add: callers_def new_table_def)

lemma all_failed_new_table: "all_failed new_table"
  by (simp add: all_failed_def new_table_def)

text \<open>
  C4, as the code has it. Over the runs of a campaign, started on the new table, the
  first call that returns at a call site returns \<open>NULL\<close>, and every later call that
  returns at that site, in the same run or in a later one, returns what the real
  allocator returns for that very call. So the calls of the site that return \<open>NULL\<close> are
  that first one and the later ones for which the real allocator itself returned \<open>NULL\<close>.
  The calls are those \<open>run_children\<close> lists as events.
\<close>

theorem fails_exactly_once:
  assumes "c \<in> call_site ` set (children_calls L h ps new_table)"
  shows "map (\<lambda>e. (call_site e, call_result e)) (children_calls L h ps new_table)
           = snd (run_children L h ps new_table) \<and>
         (\<exists>first rest.
            filter (\<lambda>e. call_site e = c) (children_calls L h ps new_table) = first # rest \<and>
            call_result first = NULL \<and> (\<forall>e\<in>set rest. delegated L e) \<and>
            length (filter (\<lambda>e. call_site e = c \<and> call_result e = NULL)
                      (children_calls L h ps new_table))
              = 1 + length (filter (\<lambda>e. call_result e = NULL) rest))"
proof -
  let ?cs = "children_calls L h ps new_table"
  obtain d es where "run_children L h ps new_table = (d, es)"
    by (cases "run_children L h ps new_table") auto
  from children_calls_fails_once [OF table_ok_new all_failed_new_table this]
  have "fails_once L {} ?cs" by (simp add: callers_new_table)
  from fails_once_new_site [OF this _ assms]
  obtain first rest where f: "filter (\<lambda>e. call_site e = c) ?cs = first # rest"
    and n: "call_result first = NULL" and r: "\<forall>e\<in>set rest. delegated L e"
    by auto
  have "filter (\<lambda>e. call_site e = c \<and> call_result e = NULL) ?cs
        = filter (\<lambda>e. call_result e = NULL) (filter (\<lambda>e. call_site e = c) ?cs)"
    by (simp add: conj_commute)
  also have "\<dots> = first # filter (\<lambda>e. call_result e = NULL) rest"
    by (simp add: f n)
  finally have "length (filter (\<lambda>e. call_site e = c \<and> call_result e = NULL) ?cs)
                  = 1 + length (filter (\<lambda>e. call_result e = NULL) rest)"
    by simp
  with f n r children_calls_events [of L h ps new_table] show ?thesis by blast
qed

theorem fails_exactly_once_witness:
  "real_call libc_limit (Malloc (- 1)) = Some (\<lambda>h. (NULL, h)) \<and>
   children_calls libc_limit () [prog_single, prog_single] new_table
     = [(0x1000, Malloc 16, (), NULL), (0x1000, Malloc 16, (), 0x5000)] \<and>
   delegated libc_limit (0x1000, Malloc 16, (), 0x5000) \<and>
   (\<exists>first rest.
      filter (\<lambda>e. call_site e = 0x1000)
        (children_calls libc_limit () [prog_single, prog_single] new_table) = first # rest \<and>
      call_result first = NULL \<and> (\<forall>e\<in>set rest. delegated libc_limit e) \<and>
      length (filter (\<lambda>e. call_site e = 0x1000 \<and> call_result e = NULL)
                (children_calls libc_limit () [prog_single, prog_single] new_table))
        = 1 + length (filter (\<lambda>e. call_result e = NULL) rest))"
proof -
  have g: "real_call libc_limit (Malloc (- 1)) = Some (\<lambda>h. (NULL, h))"
    by (simp add: libc_limit_def libc_ok_def)
  have r: "children_calls libc_limit () [prog_single, prog_single] new_table
             = [(0x1000, Malloc 16, (), NULL), (0x1000, Malloc 16, (), 0x5000)]"
    by code_simp
  have d: "delegated libc_limit (0x1000, Malloc 16, (), 0x5000)"
    by (simp add: delegated_def libc_limit_def libc_ok_def)
  have c: "(0x1000 :: ptr)
             \<in> call_site ` set (children_calls libc_limit () [prog_single, prog_single] new_table)"
    unfolding r by (simp add: call_site_def)
  from fails_exactly_once [OF c] g r d show ?thesis
    by blast
qed

text \<open>
  With real allocators that are out of memory, both calls of one site return \<open>NULL\<close> in
  the first run: the first because the wrapper fails it, the second because the real
  \<open>malloc\<close> does.
\<close>

theorem two_null_returns_counterexample:
  "run_children libc_null () [prog_retry] new_table
     = (table_both, [(0x1000, NULL), (0x1000, NULL)]) \<and>
   count_list (snd (run_children libc_null () [prog_retry] new_table)) (0x1000, NULL) = 2"
  by code_simp

section \<open>Termination of the driver loop\<close>

lemma tcl_cong:
  assumes "record_count d = record_count d'"
    and "\<forall>j<record_count d. status (records d ! j) = status (records d' ! j)"
  shows "tests_complete_loop d i a = tests_complete_loop d' i a"
  using assms
proof (induction d i a rule: tests_complete_loop.induct)
  case (1 d i dn cs)
  show ?case
  proof (cases "i < record_count d")
    case True
    with "1.prems" have s: "status (records d ! i) = status (records d' ! i)" by simp
    from True "1.prems" "1.IH" have "tests_complete_loop d (Suc i)
             ((dn AND (status (records d ! i) AND tested_failure))
                 AND (status (records d ! i) AND tested_success),
              cs * 37 + scast (status (records d ! i)))
        = tests_complete_loop d' (Suc i)
             ((dn AND (status (records d ! i) AND tested_failure))
                 AND (status (records d ! i) AND tested_success),
              cs * 37 + scast (status (records d ! i)))"
      by simp
    with True "1.prems"(1) s show ?thesis
      by (subst tests_complete_loop.simps, subst (2) tests_complete_loop.simps) simp
  next
    case False
    with "1.prems"(1) show ?thesis
      by (subst tests_complete_loop.simps, subst (2) tests_complete_loop.simps) simp
  qed
qed

lemma checksum_cong:
  assumes "record_count d = record_count d'"
    and "\<forall>j<record_count d. status (records d ! j) = status (records d' ! j)"
  shows "checksum d = checksum d'"
  using tcl_cong [OF assms] by (simp add: checksum_def)

lemma status_le_unat:
  fixes a b :: cint
  assumes "a AND b = a"
  shows "unat a \<le> unat b"
proof -
  have "a AND b \<le> b" by (rule word_and_le1)
  with assms show ?thesis by (simp add: word_le_nat_alt)
qed

lemma progress_less:
  assumes e: "evolves d d'"
    and ch: "record_count d' \<noteq> record_count d \<or> checksum d' \<noteq> checksum d"
  shows "progress d < progress d'"
proof -
  let ?f = "\<lambda>i. unat (status (records d ! i))" and ?g = "\<lambda>i. unat (status (records d' ! i))"
  from e have rc: "record_count d \<le> record_count d'" by (simp add: evolves_def)
  have le: "?f i \<le> ?g i" if "i < record_count d" for i
    using e that by (intro status_le_unat) (simp add: evolves_def)
  show ?thesis
  proof (cases "record_count d = record_count d'")
    case True
    with ch have "checksum d' \<noteq> checksum d" by simp
    with True checksum_cong [of d d'] obtain j where j: "j < record_count d"
      and ne: "status (records d ! j) \<noteq> status (records d' ! j)"
      by auto
    from ne have "?f j \<noteq> ?g j" by (simp add: word_unat_eq_iff)
    with le [OF j] have "?f j < ?g j" by simp
    with j le have "sum ?f {..<record_count d} < sum ?g {..<record_count d}"
      by (intro sum_strict_mono_ex1) auto
    with True show ?thesis by (simp add: progress_def)
  next
    case False
    with rc have lt: "record_count d < record_count d'" by simp
    have "sum ?f {..<record_count d} \<le> sum ?g {..<record_count d}"
      using le by (intro sum_mono) simp
    also have "\<dots> \<le> sum ?g {..<record_count d'}"
      using rc by (intro sum_mono2) auto
    finally show ?thesis using lt by (simp add: progress_def)
  qed
qed

lemma progress_bound:
  assumes "table_ok d"
  shows "progress d \<le> max_records d * 2 ^ 32"
proof -
  have "(\<Sum>i<record_count d. unat (status (records d ! i))) \<le> (\<Sum>i<record_count d. 2 ^ 32 - 1)"
  proof (rule sum_mono)
    fix i
    have "unat (status (records d ! i)) < 2 ^ 32"
      using unsigned_less [of "status (records d ! i)", where 'a = nat] by simp
    then show "unat (status (records d ! i)) \<le> 2 ^ 32 - 1" by simp
  qed
  then have "progress d \<le> record_count d + record_count d * (2 ^ 32 - 1)"
    by (simp add: progress_def)
  also have "\<dots> = record_count d * 2 ^ 32"
    by (simp add: algebra_simps)
  also have "\<dots> \<le> max_records d * 2 ^ 32"
    using assms by (simp add: table_ok_def)
  finally show ?thesis .
qed

lemma run_loop_terminates:
  assumes step: "\<And>n d. table_ok d \<Longrightarrow> table_ok (snd (child n d)) \<and> evolves d (snd (child n d))"
    and ok: "table_ok d"
    and st: "last_record_count st = record_count d" "last_checksum st = checksum d"
  shows "\<exists>e. run_loop fork_ok child d st n = Some e \<and>
             ((\<forall>k. fork_ok k) \<and> (\<forall>k t. fst (child k t) \<noteq> Unexpected)
                \<longrightarrow> (\<exists>k rep. e = Finished k rep))"
  using ok st
proof (induction "max_records d * 2 ^ 32 - progress d" arbitrary: d st n rule: less_induct)
  case less
  show ?case
  proof (cases "fork_ok (n + 1)")
    case False
    then show ?thesis
      by (subst run_loop.simps) auto
  next
    case fk: True
    obtain w d' where c: "child (n + 1) d = (w, d')"
      by (cases "child (n + 1) d") auto
    from step [OF less.prems(1), of "n + 1"] c have ok': "table_ok d'" and e: "evolves d d'"
      by simp_all
    show ?thesis
    proof (cases "w = Unexpected")
      case True
      with fk c have "run_loop fork_ok child d st n = Some Fatal"
        by (subst run_loop.simps) simp
      moreover from True c have "fst (child (n + 1) d) = Unexpected" by simp
      ultimately show ?thesis by auto
    next
      case cl: False
      let ?st' = "\<lparr>last_record_count = record_count d', last_checksum = checksum d'\<rparr>"
      show ?thesis
      proof (cases "(record_count d = record_count d' \<and> checksum d = checksum d')
                      \<or> record_count d' = 0")
        case True
        with less.prems have "tests_complete st d' = (1, ?st')"
          by (simp add: tests_complete_eq)
        with fk c cl have "run_loop fork_ok child d st n = Some (Finished (n + 1) (report d'))"
          by (subst run_loop.simps) simp
        then show ?thesis by simp
      next
        case False
        with less.prems have t: "tests_complete st d' = (0, ?st')"
          by (auto simp: tests_complete_eq)
        with fk c cl have u: "run_loop fork_ok child d st n = run_loop fork_ok child d' ?st' (n + 1)"
          by (subst run_loop.simps) simp
        from False have "record_count d' \<noteq> record_count d \<or> checksum d' \<noteq> checksum d"
          by auto
        from progress_less [OF e this] progress_bound [OF ok'] e
        have "max_records d' * 2 ^ 32 - progress d' < max_records d * 2 ^ 32 - progress d"
          by (simp add: evolves_def)
        from less.hyps [OF this ok', of ?st' "n + 1"] u show ?thesis
          by simp
      qed
    qed
  qed
qed

lemma digest_new_table:
  "last_record_count statics0 = record_count new_table"
  "last_checksum statics0 = checksum new_table"
  by (simp_all add: statics0_def new_table_def checksum_def tcl_empty)

lemma child_of_step:
  assumes "table_ok d"
  shows "table_ok (snd (child_of sys n d)) \<and> evolves d (snd (child_of sys n d))"
proof -
  obtain w d' es where r: "run_child (dlsym sys) (target sys n) (d, heap sys) = (w, d', es)"
    by (cases "run_child (dlsym sys) (target sys n) (d, heap sys)") auto
  from run_child_inv [OF assms r] r show ?thesis
    by (simp add: child_of_def)
qed

lemma intercept_Inl_status:
  assumes "intercept L c r s = Inl (w, d')"
  shows "w = Exited EXIT_FAILURE \<or> w = Signaled SIGSEGV"
proof (cases "lookup_caller (fst s) c")
  case (Inl e)
  with assms show ?thesis
    by (auto simp: intercept_eq lookup_caller_Inl)
next
  case (Inr x)
  with assms show ?thesis
    by (auto simp: intercept_eq split: prod.splits if_splits option.splits)
qed

text \<open>The campaign of \<open>init\<close> ends, whatever the system and the target program are.\<close>

lemma init_terminates: "\<exists>e. init sys = Some e"
proof -
  from run_loop_terminates [where child = "child_of sys" and fork_ok = "fork_succeeds sys"
         and d = new_table and st = statics0 and n = 0,
         OF child_of_step table_ok_new digest_new_table]
  have "\<exists>e. run_tests sys new_table = Some e"
    by (auto simp: run_tests_def)
  then show ?thesis
    by (auto simp: init_def)
qed

text \<open>
  C7. Whatever the runs do, as long as each of them ends and leaves the table within its
  bounds, with the records it had and no bit of a status cleared, the loop of
  \<open>run_tests\<close> ends; when every \<open>fork\<close> succeeds and every wait status is an exit or a
  signal, it ends with the report and \<open>exit(EXIT_SUCCESS)\<close>. The children of target
  programs are such runs (\<open>child_of_step\<close>, \<open>init_terminates\<close>).
\<close>

theorem campaign_terminates:
  assumes "\<forall>n d. table_ok d \<longrightarrow> table_ok (snd (child n d)) \<and> evolves d (snd (child n d))"
  shows "\<exists>e. run_loop fork_ok child new_table statics0 0 = Some e \<and>
             ((\<forall>k. fork_ok k) \<and> (\<forall>k t. fst (child k t) \<noteq> Unexpected)
                \<longrightarrow> (\<exists>k rep. e = Finished k rep))"
  using assms
  by (intro run_loop_terminates table_ok_new digest_new_table) simp

theorem campaign_terminates_witness:
  "table_ok (snd (child_of sys_single 1 new_table)) \<and>
   evolves new_table (snd (child_of sys_single 1 new_table)) \<and>
   (\<exists>k rep. run_tests sys_single new_table = Some (Finished k rep))"
proof -
  have h: "\<forall>n d. table_ok d \<longrightarrow>
             table_ok (snd (child_of sys_single n d)) \<and> evolves d (snd (child_of sys_single n d))"
    using child_of_step by blast
  have f: "\<forall>k. fork_succeeds sys_single k"
    by (simp add: sys_single_def)
  have u: "fst (child_of sys_single k t) \<noteq> Unexpected" for k t
  proof (cases "intercept libc_ok 0x1000 (Malloc 16) (t, ())")
    case (Inl a)
    then obtain w d where "intercept libc_ok 0x1000 (Malloc 16) (t, ()) = Inl (w, d)"
      by (cases a) auto
    with intercept_Inl_status [OF this] show ?thesis
      by (auto simp: child_of_def sys_single_def prog_single_def)
  next
    case (Inr b)
    then show ?thesis
      by (auto simp: child_of_def sys_single_def prog_single_def split: prod.splits)
  qed
  from campaign_terminates [OF h, of "fork_succeeds sys_single"] f u
  have "\<exists>k rep. run_tests sys_single new_table = Some (Finished k rep)"
    by (auto simp: run_tests_def)
  with child_of_step [OF table_ok_new, of sys_single 1] show ?thesis
    by simp
qed

section \<open>More call sites than the capacity\<close>

lemma intercept_new_site:
  assumes ok: "table_ok d" and new: "c \<notin> set (callers d)"
    and room: "record_count d < max_records d"
  shows "\<exists>d'. intercept L c r (d, h) = Inr (NULL, d', h)"
proof -
  from new room obtain rec d1 where lk: "lookup_caller d c = Inr (rec, d1)"
    using lookup_caller_Inl [of d c] by (cases "lookup_caller d c") auto
  from lookup_caller_props [OF ok lk] new have "status (records d1 ! rec) = 0" by simp
  with lk show ?thesis by (simp add: intercept_eq)
qed

lemma site_not_in_prefix:
  assumes "i \<le> 1024"
  shows "(of_nat i :: ptr) \<notin> set (map of_nat [0 ..< i])"
proof
  assume "(of_nat i :: ptr) \<in> set (map of_nat [0 ..< i])"
  then obtain j where j: "j < i" and e: "(of_nat j :: ptr) = of_nat i" by auto
  from j assms have "unat (of_nat j :: ptr) = j" and "unat (of_nat i :: ptr) = i"
    by (simp_all add: unat_of_nat)
  with e j show False by simp
qed

lemma run_sites_status:
  "fst (run_child L (prog_sites n i) s) \<noteq> Unexpected"
proof (induction n arbitrary: i s)
  case 0
  then show ?case by simp
next
  case (Suc n)
  show ?case
  proof (cases "intercept L (of_nat i) (Malloc 16) s")
    case (Inl a)
    then obtain w d where "intercept L (of_nat i) (Malloc 16) s = Inl (w, d)" by (cases a) auto
    with intercept_Inl_status [OF this] show ?thesis by auto
  next
    case (Inr b)
    then obtain p d h where "intercept L (of_nat i) (Malloc 16) s = Inr (p, d, h)"
      by (cases b) auto
    with Suc [of "Suc i" "(d, h)"] show ?thesis
      by (auto simp del: intercept.simps split: prod.splits)
  qed
qed

lemma run_sites_overflow:
  assumes "table_ok d" and "max_records d = 1024" and "callers d = map of_nat [0 ..< i]"
    and "i + n = 1025" and "0 < n"
  shows "fst (run_child L (prog_sites n i) (d, h)) = Exited EXIT_FAILURE \<and>
         record_count (fst (snd (run_child L (prog_sites n i) (d, h)))) = 1024 \<and>
         callers (fst (snd (run_child L (prog_sites n i) (d, h)))) = map of_nat [0 ..< 1024]"
  using assms
proof (induction n arbitrary: i d h)
  case 0
  then show ?case by simp
next
  case (Suc n)
  from Suc.prems(3) have rc: "record_count d = i"
    using length_callers [of d] by simp
  from Suc.prems(4) have i: "i \<le> 1024" by simp
  with Suc.prems(3) have new: "(of_nat i :: ptr) \<notin> set (callers d)"
    by (simp only: site_not_in_prefix not_False_eq_True)
  show ?case
  proof (cases "n = 0")
    case True
    with Suc.prems(4) have "i = 1024" by simp
    with rc Suc.prems(2) have "max_records d \<le> record_count d" by simp
    from new this have "run_child L (prog_sites (Suc n) i) (d, h) = (Exited EXIT_FAILURE, d, [])"
      unfolding prog_sites.simps by (rule capacity_exit(3))
    with rc \<open>i = 1024\<close> Suc.prems(3) show ?thesis by simp
  next
    case False
    with Suc.prems(4) have "i < 1024" by simp
    with rc Suc.prems(2) have room: "record_count d < max_records d" by simp
    from intercept_new_site [OF Suc.prems(1) new room, of L "Malloc 16" h]
    obtain d' where c: "intercept L (of_nat i) (Malloc 16) (d, h) = Inr (NULL, d', h)"
      by blast
    from intercept_Inr [OF Suc.prems(1) c] new Suc.prems(2,3)
    have "table_ok d'" and "max_records d' = 1024" and "callers d' = map of_nat [0 ..< Suc i]"
      by (simp_all add: evolves_def)
    from Suc.IH [OF this, of h] Suc.prems(4) False c show ?thesis
      by (auto simp del: intercept.simps split: prod.splits)
  qed
qed

lemma sys_sites_finishes:
  "\<exists>k rep. init sys_sites = Some (Finished k rep)"
proof -
  have u: "fst (child_of sys_sites k t) \<noteq> Unexpected" for k t
    using run_sites_status [of "dlsym sys_sites" 1025 0 "(t, heap sys_sites)"]
    by (auto simp: child_of_def sys_sites_def split: prod.splits)
  have f: "fork_succeeds sys_sites k" for k
    by (simp add: sys_sites_def)
  from run_loop_terminates [where child = "child_of sys_sites"
         and fork_ok = "fork_succeeds sys_sites" and d = new_table and st = statics0 and n = 0,
         OF child_of_step table_ok_new digest_new_table] u f
  have "\<exists>k rep. run_tests sys_sites new_table = Some (Finished k rep)"
    by (auto simp: run_tests_def)
  moreover have "init sys_sites = run_tests sys_sites new_table"
    by (simp add: init_def sys_sites_def libc_ok_def NULL_def MAP_FAILED_def)
  ultimately show ?thesis by simp
qed

section \<open>The runs of a campaign\<close>

lemma run_children_cons_child:
  "fst (run_children (dlsym sys) (heap sys) (target sys n # ps) d)
     = fst (run_children (dlsym sys) (heap sys) ps (snd (child_of sys n d)))"
  by (simp add: child_of_def split: prod.splits)

text \<open>
  The table a finished campaign reports is the table its runs 1 to \<open>k\<close> leave, one after
  the other.
\<close>

lemma run_loop_report:
  assumes r: "run_loop (fork_succeeds sys) (child_of sys) d st n = Some e"
  shows "\<forall>k rep. e = Finished k rep \<longrightarrow>
           n < k \<and>
           rep = report (fst (run_children (dlsym sys) (heap sys)
                   (map (target sys) [Suc n ..< Suc k]) d))"
proof -
  let ?Q = "\<lambda>d n e. \<forall>k rep. e = Finished k rep \<longrightarrow>
           n < k \<and>
           rep = report (fst (run_children (dlsym sys) (heap sys)
                   (map (target sys) [Suc n ..< Suc k]) d))"
  let ?P = "\<lambda>fo ch d (st :: statics) n e.
              fo = fork_succeeds sys \<longrightarrow> ch = child_of sys \<longrightarrow> ?Q d n e"
  have "?P (fork_succeeds sys) (child_of sys) d st n e"
  proof (rule run_loop.raw_induct [where P = ?P, OF _ r], intro impI allI)
    fix run_loop fork_ok child d st n e k rep
    assume IH: "\<And>fo ch d st n e. run_loop fo ch d st n = Some e \<Longrightarrow> ?P fo ch d st n e"
      and body: "(if \<not> fork_ok (n + 1) then Some Fatal
                  else case child (n + 1) d of
                    (w, d') \<Rightarrow>
                      if w = Unexpected then Some Fatal
                      else case tests_complete st d' of
                        (done, st') \<Rightarrow>
                          if done = 0 then run_loop fork_ok child d' st' (n + 1)
                          else Some (Finished (n + 1) (report d'))) = Some e"
      and fo: "fork_ok = fork_succeeds sys" and ch: "child = child_of sys"
      and e: "e = Finished k rep"
    obtain w d' where c: "child (n + 1) d = (w, d')" by (cases "child (n + 1) d") auto
    obtain dn st' where t: "tests_complete st d' = (dn, st')"
      by (cases "tests_complete st d'") auto
    from body c t e have fk: "fork_ok (n + 1)" and w: "w \<noteq> Unexpected"
      by (auto split: if_splits)
    from c ch have d': "d' = snd (child_of sys (Suc n) d)" by simp
    show "n < k \<and>
           rep = report (fst (run_children (dlsym sys) (heap sys)
                   (map (target sys) [Suc n ..< Suc k]) d))"
    proof (cases "dn = 0")
      case True
      with body c t fk w e
      have "run_loop fork_ok child d' st' (n + 1) = Some (Finished k rep)"
        by simp
      from IH [OF this] fo ch
      have k: "Suc n < k"
        and r: "rep = report (fst (run_children (dlsym sys) (heap sys)
                  (map (target sys) [Suc (Suc n) ..< Suc k]) d'))"
        by simp_all
      from k have m: "map (target sys) [Suc n ..< Suc k]
                        = target sys (Suc n) # map (target sys) [Suc (Suc n) ..< Suc k]"
        by (simp add: upt_conv_Cons del: upt_Suc)
      have "fst (run_children (dlsym sys) (heap sys) (map (target sys) [Suc n ..< Suc k]) d)
            = fst (run_children (dlsym sys) (heap sys)
                    (map (target sys) [Suc (Suc n) ..< Suc k]) d')"
        unfolding m d' by (rule run_children_cons_child)
      with r k show ?thesis
        by (simp del: upt_Suc)
    next
      case False
      with body c t fk w e have k: "k = n + 1" and rep: "rep = report d'"
        by simp_all
      have "fst (run_children (dlsym sys) (heap sys) [target sys (Suc n)] d) = d'"
        unfolding d' by (simp add: child_of_def split: prod.splits)
      with k rep show ?thesis
        by simp
    qed
  qed
  then show ?thesis by simp
qed

text \<open>
  So the table that \<open>init\<close> reports after \<open>k\<close> runs is what the children of the runs 1
  to \<open>k\<close> have made of the new table.
\<close>

lemma init_report:
  assumes "init sys = Some (Finished k rep)"
  shows "0 < k \<and>
         rep = report (fst (run_children (dlsym sys) (heap sys)
                 (map (target sys) [1 ..< Suc k]) new_table))"
proof -
  from assms have "run_loop (fork_succeeds sys) (child_of sys) new_table statics0 0
                     = Some (Finished k rep)"
    by (auto simp: init_def run_tests_def split: if_splits)
  from run_loop_report [OF this] show ?thesis by simp
qed

section \<open>The capacity exit in a child\<close>

lemma report_callers: "map fst (report d) = callers d"
  by (simp add: report_def callers_def)

lemma full_table_callers:
  assumes "table_ok d'" and "evolves d d'" and "record_count d = max_records d"
  shows "callers d' = callers d"
proof -
  from assms have rc: "record_count d' = record_count d"
    by (simp add: table_ok_def evolves_def)
  with assms(2) show ?thesis
    by (simp add: callers_def evolves_def)
qed

lemma run_children_full_table:
  assumes "table_ok d" and "record_count d = max_records d"
  shows "callers (fst (run_children L h ps d)) = callers d"
proof -
  obtain d' es where r: "run_children L h ps d = (d', es)"
    by (cases "run_children L h ps d") auto
  from run_children_inv [OF assms(1) r] assms(2) r show ?thesis
    by (simp add: full_table_callers)
qed

lemma sys_sites_report:
  assumes "init sys_sites = Some (Finished k rep)"
  shows "map fst rep = map of_nat [0 ..< 1024]"
proof -
  let ?L = "dlsym sys_sites" and ?h = "heap sys_sites"
  let ?d1 = "fst (snd (run_child ?L (prog_sites 1025 0) (new_table, ?h)))"
  from init_report [OF assms] have k: "0 < k"
    and rep: "rep = report (fst (run_children ?L ?h (map (target sys_sites) [1 ..< Suc k]) new_table))"
    by simp_all
  from k have "[1 ..< Suc k] = 1 # [2 ..< Suc k]"
    by (simp add: upt_conv_Cons numeral_2_eq_2 del: upt_Suc)
  then have m: "map (target sys_sites) [1 ..< Suc k]
                  = prog_sites 1025 0 # map (target sys_sites) [2 ..< Suc k]"
    by (simp add: sys_sites_def del: upt_Suc)
  have f: "fst (run_children ?L ?h (map (target sys_sites) [1 ..< Suc k]) new_table)
             = fst (run_children ?L ?h (map (target sys_sites) [2 ..< Suc k]) ?d1)"
    unfolding m by (simp split: prod.splits)
  have "callers new_table = map of_nat [0 ..< 0]"
    by (simp add: callers_new_table)
  from run_sites_overflow [OF table_ok_new _ this, of 1025 ?L ?h]
  have rc: "record_count ?d1 = 1024" and cs: "callers ?d1 = map of_nat [0 ..< 1024]"
    by (simp_all add: new_table_def)
  obtain w es where r1: "run_child ?L (prog_sites 1025 0) (new_table, ?h) = (w, ?d1, es)"
    by (cases "run_child ?L (prog_sites 1025 0) (new_table, ?h)") auto
  from run_child_inv [OF table_ok_new r1] have ok: "table_ok ?d1" and "evolves new_table ?d1"
    by simp_all
  then have "max_records ?d1 = 1024"
    by (simp add: evolves_def new_table_def)
  with rc have "record_count ?d1 = max_records ?d1" by simp
  from run_children_full_table [OF ok this] cs f rep show ?thesis
    by (simp add: report_callers del: upt_Suc)
qed

text \<open>
  C6. The capacity exit does not end the campaign. The target calls \<open>malloc\<close> from 1025
  call sites, the sites 0 to 1024. Its first run fills the table with the sites 0 to 1023
  and ends in the \<open>exit(EXIT_FAILURE)\<close> of \<open>lookup_caller\<close>: that is the exit of the child.
  The parent finds an exit status like any other and goes on; the campaign that \<open>init\<close>
  starts ends with \<open>exit(EXIT_SUCCESS)\<close> and a report of the sites 0 to 1023, without the
  site 1024.
\<close>

theorem capacity_exit_not_fatal:
  "fst (run_child libc_ok (prog_sites 1025 0) (new_table, ())) = Exited EXIT_FAILURE \<and>
   record_count (fst (snd (run_child libc_ok (prog_sites 1025 0) (new_table, ())))) = 1024 \<and>
   map_option exit_code (init sys_sites) = Some (Some EXIT_SUCCESS) \<and>
   map_option reported_sites (init sys_sites) = Some (map of_nat [0 ..< 1024])"
proof -
  have "callers new_table = map of_nat [0 ..< 0]"
    by (simp add: callers_new_table)
  from run_sites_overflow [OF table_ok_new _ this, of 1025 libc_ok "()"]
  have "fst (run_child libc_ok (prog_sites 1025 0) (new_table, ())) = Exited EXIT_FAILURE \<and>
   record_count (fst (snd (run_child libc_ok (prog_sites 1025 0) (new_table, ())))) = 1024"
    by (simp add: new_table_def)
  moreover from sys_sites_finishes obtain k rep where e: "init sys_sites = Some (Finished k rep)"
    by blast
  with sys_sites_report [OF e]
  have "map_option exit_code (init sys_sites) = Some (Some EXIT_SUCCESS) \<and>
        map_option reported_sites (init sys_sites) = Some (map of_nat [0 ..< 1024])"
    by simp
  ultimately show ?thesis by simp
qed

end
